theory Spec2Isabelle
  imports Main "HOL-Library.Word" "HOL-Library.Monad_Syntax"
begin

section \<open>Memory: list nodes in a store\<close>

text \<open>
  The list of \<^verbatim>\<open>lib/list.h\<close> is intrusive: every operation takes pointers to
  \<^verbatim>\<open>struct ovs_list\<close> nodes and reads and writes their \<^verbatim>\<open>prev\<close> and
  \<^verbatim>\<open>next\<close> fields in place. The model is an explicit store from addresses to nodes.
  An address is a 64-bit pointer value, and so is \<^verbatim>\<open>size_t\<close>. An address outside
  the domain of the store is not a node (NULL, freed or wild); reading or writing through it
  is undefined behaviour in C and is the result \<open>None\<close> here.
\<close>

type_synonym addr = "64 word"

text \<open>
  Modelled from the spec: \<^verbatim>\<open>struct ovs_list\<close> is declared in
  \<^verbatim>\<open>openvswitch/list.h\<close>, which is not among the sources; the spec describes it as
  "an embeddable link pair (previous/next)", and \<^verbatim>\<open>list.h\<close> uses exactly the two
  fields \<^verbatim>\<open>prev\<close> and \<^verbatim>\<open>next\<close>.
\<close>

record ovs_list =
  prev :: addr
  "next" :: addr

type_synonym heap = "addr \<rightharpoonup> ovs_list"

definition get_prev :: "heap \<Rightarrow> addr \<Rightarrow> addr option" where
  \<comment> \<open>the value of \<^verbatim>\<open>p->prev\<close>\<close>
  "get_prev h p = map_option prev (h p)"

definition get_next :: "heap \<Rightarrow> addr \<Rightarrow> addr option" where
  \<comment> \<open>the value of \<^verbatim>\<open>p->next\<close>\<close>
  "get_next h p = map_option next (h p)"

definition set_prev :: "heap \<Rightarrow> addr \<Rightarrow> addr \<Rightarrow> heap option" where
  \<comment> \<open>the store \<^verbatim>\<open>p->prev = v\<close>\<close>
  "set_prev h p v = (case h p of None \<Rightarrow> None | Some n \<Rightarrow> Some (h(p \<mapsto> n\<lparr>prev := v\<rparr>)))"

definition set_next :: "heap \<Rightarrow> addr \<Rightarrow> addr \<Rightarrow> heap option" where
  \<comment> \<open>the store \<^verbatim>\<open>p->next = v\<close>\<close>
  "set_next h p v = (case h p of None \<Rightarrow> None | Some n \<Rightarrow> Some (h(p \<mapsto> n\<lparr>next := v\<rparr>)))"

definition copy_node :: "heap \<Rightarrow> addr \<Rightarrow> addr \<Rightarrow> heap option" where
  \<comment> \<open>the structure assignment \<^verbatim>\<open>*dst = *src\<close>\<close>
  "copy_node h dst src =
     (case h src of None \<Rightarrow> None
      | Some s \<Rightarrow> (case h dst of None \<Rightarrow> None | Some d \<Rightarrow> Some (h(dst \<mapsto> s))))"

datatype error = Invalid_Pointer | Assertion_Failed

text \<open>
  Modelled from the spec: \<^verbatim>\<open>ovs_assert\<close> is a macro of \<^verbatim>\<open>util.h\<close>, which is
  not among the sources. The spec says that the accessors "fail (assertion) on an empty
  list": a false condition ends the call with an assertion failure.
\<close>

definition ovs_assert :: "bool \<Rightarrow> error + unit" where
  "ovs_assert c = (if c then Inr () else Inl Assertion_Failed)"


section \<open>The operations of \<^verbatim>\<open>lib/list.h\<close>\<close>

text \<open>
  Each definition has the name of the C function and follows its statements in order, one
  step for every read and every store, on the store that the steps before have left:
  \<^verbatim>\<open>list_init\<close> (lines 80-84), \<^verbatim>\<open>list_poison\<close> (88-92), \<^verbatim>\<open>list_insert\<close>
  (95-102), \<^verbatim>\<open>list_splice\<close> (106-123), \<^verbatim>\<open>list_push_front\<close> (127-131),
  \<^verbatim>\<open>list_push_back\<close> (135-139), \<^verbatim>\<open>list_replace\<close> (143-150),
  \<^verbatim>\<open>list_moved\<close> (158-162), \<^verbatim>\<open>list_move\<close> (167-176), \<^verbatim>\<open>list_remove\<close>
  (180-186), \<^verbatim>\<open>list_pop_front\<close> (190-197), \<^verbatim>\<open>list_pop_back\<close> (201-208),
  \<^verbatim>\<open>list_front\<close> (212-220), \<^verbatim>\<open>list_back\<close> (224-232), \<^verbatim>\<open>list_size\<close>
  (236-246), \<^verbatim>\<open>list_is_empty\<close> (249-253), \<^verbatim>\<open>list_is_singleton\<close> (256-260),
  \<^verbatim>\<open>list_is_short\<close> (263-267). A function that returns a pointer returns the new
  store together with it.
\<close>

definition list_init :: "heap \<Rightarrow> addr \<Rightarrow> heap option" where
  \<comment> \<open>\<^verbatim>\<open>list->next = list->prev = list;\<close>\<close>
  "list_init h list = do {
     h1 \<leftarrow> set_prev h list list;
     set_next h1 list list
   }"

definition list_poison :: "heap \<Rightarrow> addr \<Rightarrow> heap option" where
  \<comment> \<open>\<^verbatim>\<open>memset(list, 0xcc, sizeof *list)\<close>: every byte of both pointers is \<open>0xcc\<close>\<close>
  "list_poison h list =
     (case h list of None \<Rightarrow> None
      | Some n \<Rightarrow> Some (h(list \<mapsto> \<lparr>prev = 0xCCCCCCCCCCCCCCCC, next = 0xCCCCCCCCCCCCCCCC\<rparr>)))"

definition list_insert :: "heap \<Rightarrow> addr \<Rightarrow> addr \<Rightarrow> heap option" where
  "list_insert h before elem = do {
     bp \<leftarrow> get_prev h before;
     h1 \<leftarrow> set_prev h elem bp;
     h2 \<leftarrow> set_next h1 elem before;
     bp2 \<leftarrow> get_prev h2 before;
     h3 \<leftarrow> set_next h2 bp2 elem;
     set_prev h3 before elem
   }"

text \<open>
  In \<^verbatim>\<open>list_splice\<close> the parameter \<^verbatim>\<open>last\<close> is \<open>last0\<close> here, and \<open>last1\<close> after
  the assignment \<^verbatim>\<open>last = last->prev\<close>.
\<close>

definition list_splice :: "heap \<Rightarrow> addr \<Rightarrow> addr \<Rightarrow> addr \<Rightarrow> heap option" where
  "list_splice h before first last0 =
     (if first = last0 then Some h
      else do {
        last1 \<leftarrow> get_prev h last0;
        fp \<leftarrow> get_prev h first;
        ln \<leftarrow> get_next h last1;
        h1 \<leftarrow> set_next h fp ln;
        ln1 \<leftarrow> get_next h1 last1;
        fp1 \<leftarrow> get_prev h1 first;
        h2 \<leftarrow> set_prev h1 ln1 fp1;
        bp \<leftarrow> get_prev h2 before;
        h3 \<leftarrow> set_prev h2 first bp;
        h4 \<leftarrow> set_next h3 last1 before;
        bp4 \<leftarrow> get_prev h4 before;
        h5 \<leftarrow> set_next h4 bp4 first;
        set_prev h5 before last1
      })"

definition list_push_front :: "heap \<Rightarrow> addr \<Rightarrow> addr \<Rightarrow> heap option" where
  "list_push_front h list elem = do {
     n \<leftarrow> get_next h list;
     list_insert h n elem
   }"

definition list_push_back :: "heap \<Rightarrow> addr \<Rightarrow> addr \<Rightarrow> heap option" where
  "list_push_back h list elem = list_insert h list elem"

definition list_replace :: "heap \<Rightarrow> addr \<Rightarrow> addr \<Rightarrow> heap option" where
  "list_replace h element position = do {
     pn \<leftarrow> get_next h position;
     h1 \<leftarrow> set_next h element pn;
     en \<leftarrow> get_next h1 element;
     h2 \<leftarrow> set_prev h1 en element;
     pp \<leftarrow> get_prev h2 position;
     h3 \<leftarrow> set_prev h2 element pp;
     ep \<leftarrow> get_prev h3 element;
     set_next h3 ep element
   }"

text \<open>
  \<^verbatim>\<open>list->prev->next = list->next->prev = list;\<close> The inner assignment is the right
  operand of the outer one. C leaves the evaluation of \<^verbatim>\<open>list->prev\<close> unsequenced
  with the inner store; the model performs the inner store first. The two orders differ
  only if \<^verbatim>\<open>list->next == list\<close>, the case that the source's comment excludes.
\<close>

definition list_moved :: "heap \<Rightarrow> addr \<Rightarrow> heap option" where
  "list_moved h list = do {
     n \<leftarrow> get_next h list;
     h1 \<leftarrow> set_prev h n list;
     p \<leftarrow> get_prev h1 list;
     set_next h1 p list
   }"

definition list_is_empty :: "heap \<Rightarrow> addr \<Rightarrow> bool option" where
  "list_is_empty h list = do {
     n \<leftarrow> get_next h list;
     Some (n = list)
   }"

definition list_is_short :: "heap \<Rightarrow> addr \<Rightarrow> bool option" where
  "list_is_short h list = do {
     n \<leftarrow> get_next h list;
     p \<leftarrow> get_prev h list;
     Some (n = p)
   }"

definition list_is_singleton :: "heap \<Rightarrow> addr \<Rightarrow> bool option" where
  \<comment> \<open>\<^verbatim>\<open>&&\<close> evaluates its right operand only if the left one is true\<close>
  "list_is_singleton h list = do {
     s \<leftarrow> list_is_short h list;
     if s then do { e \<leftarrow> list_is_empty h list; Some (\<not> e) } else Some False
   }"

definition list_move :: "heap \<Rightarrow> addr \<Rightarrow> addr \<Rightarrow> heap option" where
  "list_move h dst src = do {
     e \<leftarrow> list_is_empty h src;
     if \<not> e then do {
       h1 \<leftarrow> copy_node h dst src;
       list_moved h1 dst
     } else list_init h dst
   }"

definition list_remove :: "heap \<Rightarrow> addr \<Rightarrow> (heap \<times> addr) option" where
  "list_remove h elem = do {
     ep \<leftarrow> get_prev h elem;
     en \<leftarrow> get_next h elem;
     h1 \<leftarrow> set_next h ep en;
     en1 \<leftarrow> get_next h1 elem;
     ep1 \<leftarrow> get_prev h1 elem;
     h2 \<leftarrow> set_prev h1 en1 ep1;
     r \<leftarrow> get_next h2 elem;
     Some (h2, r)
   }"

definition list_pop_front :: "heap \<Rightarrow> addr \<Rightarrow> (heap \<times> addr) option" where
  "list_pop_front h list = do {
     front \<leftarrow> get_next h list;
     (h1, r) \<leftarrow> list_remove h front;
     Some (h1, front)
   }"

definition list_pop_back :: "heap \<Rightarrow> addr \<Rightarrow> (heap \<times> addr) option" where
  "list_pop_back h list = do {
     back \<leftarrow> get_prev h list;
     (h1, r) \<leftarrow> list_remove h back;
     Some (h1, back)
   }"

definition list_front :: "heap \<Rightarrow> addr \<Rightarrow> error + addr" where
  "list_front h list =
     (case list_is_empty h list of
        None \<Rightarrow> Inl Invalid_Pointer
      | Some e \<Rightarrow>
          (case ovs_assert (\<not> e) of
             Inl err \<Rightarrow> Inl err
           | Inr u \<Rightarrow> (case get_next h list of None \<Rightarrow> Inl Invalid_Pointer | Some n \<Rightarrow> Inr n)))"

definition list_back :: "heap \<Rightarrow> addr \<Rightarrow> error + addr" where
  "list_back h list =
     (case list_is_empty h list of
        None \<Rightarrow> Inl Invalid_Pointer
      | Some e \<Rightarrow>
          (case ovs_assert (\<not> e) of
             Inl err \<Rightarrow> Inl err
           | Inr u \<Rightarrow> (case get_prev h list of None \<Rightarrow> Inl Invalid_Pointer | Some p \<Rightarrow> Inr p)))"

text \<open>
  The loop of \<^verbatim>\<open>list_size\<close> runs until the cursor \<^verbatim>\<open>e\<close> is back at
  \<^verbatim>\<open>list\<close>. On a chain that never returns there it does not terminate, so the loop
  is a partial function: \<open>None\<close> is no result (an invalid pointer, or no return).
  The counter is a \<^verbatim>\<open>size_t\<close> and wraps.
\<close>

partial_function (option) list_size_loop :: "heap \<Rightarrow> addr \<Rightarrow> addr \<Rightarrow> 64 word \<Rightarrow> 64 word option" where
  "list_size_loop h list e cnt =
     (if e = list then Some cnt
      else do {
        e' \<leftarrow> get_next h e;
        list_size_loop h list e' (cnt + 1)
      })"

definition list_size :: "heap \<Rightarrow> addr \<Rightarrow> 64 word option" where
  "list_size h list = do {
     e \<leftarrow> get_next h list;
     list_size_loop h list e 0
   }"


section \<open>Specification: circular lists in the store\<close>

text \<open>
  \<open>path h a xs\<close>: starting at node \<open>a\<close>, the \<^verbatim>\<open>next\<close> pointers visit the nodes
  \<open>xs\<close> in order, and the \<^verbatim>\<open>prev\<close> pointer of each visited node leads back to the
  node before it. Every node on the way is in the store.
\<close>

fun path :: "heap \<Rightarrow> addr \<Rightarrow> addr list \<Rightarrow> bool" where
  "path h a [] = True"
| "path h a (x # xs) = (get_next h a = Some x \<and> get_prev h x = Some a \<and> path h x xs)"

text \<open>
  \<open>clist h l xs\<close>: the header (sentinel) \<open>l\<close> heads a well-formed circular list whose
  elements are \<open>xs\<close>, front to back: the nodes are pairwise different, and the doubly
  linked path from \<open>l\<close> through \<open>xs\<close> ends at \<open>l\<close> again. The empty list is the header
  that references itself.
\<close>

definition clist :: "heap \<Rightarrow> addr \<Rightarrow> addr list \<Rightarrow> bool" where
  "clist h l xs = (distinct (l # xs) \<and> path h l (xs @ [l]))"

text \<open>\<open>follow h k a\<close> is the node reached from \<open>a\<close> by \<open>k\<close> steps along \<^verbatim>\<open>next\<close>.\<close>

fun follow :: "heap \<Rightarrow> nat \<Rightarrow> addr \<Rightarrow> addr option" where
  "follow h 0 a = Some a"
| "follow h (Suc k) a = do { b \<leftarrow> get_next h a; follow h k b }"

text \<open>
  Two fragments that the operations share. \<open>unlink h f t\<close> is the pair of statements
  \<^verbatim>\<open>f->prev->next = t->next; t->next->prev = f->prev;\<close> that takes the run from
  \<open>f\<close> to \<open>t\<close> out of its list (\<^verbatim>\<open>list_remove\<close> with \<open>f = t = elem\<close>,
  \<^verbatim>\<open>list_splice\<close> with \<open>f = first\<close>, \<open>t = last\<close>). \<open>link h b f t\<close> is the four
  statements \<^verbatim>\<open>f->prev = b->prev; t->next = b; b->prev->next = f; b->prev = t;\<close>
  that put the run from \<open>f\<close> to \<open>t\<close> before \<open>b\<close> (\<^verbatim>\<open>list_insert\<close> with
  \<open>f = t = elem\<close>, \<^verbatim>\<open>list_splice\<close>). The operations above are proved equal to
  their compositions below.
\<close>

definition unlink :: "heap \<Rightarrow> addr \<Rightarrow> addr \<Rightarrow> heap option" where
  "unlink h f t = do {
     fp \<leftarrow> get_prev h f;
     tn \<leftarrow> get_next h t;
     h1 \<leftarrow> set_next h fp tn;
     tn1 \<leftarrow> get_next h1 t;
     fp1 \<leftarrow> get_prev h1 f;
     set_prev h1 tn1 fp1
   }"

definition link :: "heap \<Rightarrow> addr \<Rightarrow> addr \<Rightarrow> addr \<Rightarrow> heap option" where
  "link h b f t = do {
     bp \<leftarrow> get_prev h b;
     h1 \<leftarrow> set_prev h f bp;
     h2 \<leftarrow> set_next h1 t b;
     bp2 \<leftarrow> get_prev h2 b;
     h3 \<leftarrow> set_next h2 bp2 f;
     set_prev h3 b t
   }"

text \<open>
  Two properties of a single node. \<open>is_solitary\<close>: both pointers of the node reference
  the node itself (an initialised header without elements). \<open>is_linked\<close>: the node's
  \<^verbatim>\<open>next\<close> and \<^verbatim>\<open>prev\<close> neighbours reference the node back, as the neighbours of
  every node of a circular list do.
\<close>

definition is_solitary :: "heap \<Rightarrow> addr \<Rightarrow> bool" where
  "is_solitary h n = (h n = Some \<lparr>prev = n, next = n\<rparr>)"

definition is_linked :: "heap \<Rightarrow> addr \<Rightarrow> bool" where
  "is_linked h n =
     (case h n of None \<Rightarrow> False
      | Some nd \<Rightarrow> get_prev h (next nd) = Some n \<and> get_next h (prev nd) = Some n)"

subsection \<open>Several lists in one store\<close>

text \<open>
  The lists that live in a store are described by their headers and element sequences.
  \<open>wf_lists h als\<close>: every entry \<open>(l, xs)\<close> of \<open>als\<close> is a circular list in \<open>h\<close>, and no
  node (header or element) occurs twice, in one list or in two.
\<close>

type_synonym lists = "(addr \<times> addr list) list"

definition nodes_of :: "lists \<Rightarrow> addr list" where
  "nodes_of als = concat (map (\<lambda>(l, xs). l # xs) als)"

definition wf_lists :: "heap \<Rightarrow> lists \<Rightarrow> bool" where
  "wf_lists h als = (distinct (nodes_of als) \<and> (\<forall>(l, xs) \<in> set als. path h l (xs @ [l])))"

definition total_size :: "lists \<Rightarrow> nat" where
  "total_size als = sum_list (map (\<lambda>(l, xs). length xs) als)"

text \<open>
  What the operations are meant to do, on the element sequences. \<open>insert_run b R xs\<close>
  puts the run \<open>R\<close> before the element \<open>b\<close> of \<open>xs\<close>, and at the end of \<open>xs\<close> if \<open>b\<close>
  is not an element (then \<open>b\<close> is the header, and "before the header" is the back of the
  circular list).
\<close>

fun insert_run :: "addr \<Rightarrow> addr list \<Rightarrow> addr list \<Rightarrow> addr list" where
  "insert_run b R [] = R"
| "insert_run b R (x # xs) = (if x = b then R @ x # xs else x # insert_run b R xs)"

definition abs_insert :: "addr \<Rightarrow> addr list \<Rightarrow> lists \<Rightarrow> lists" where
  "abs_insert b R als =
     map (\<lambda>(l, xs). if b \<in> set (l # xs) then (l, insert_run b R xs) else (l, xs)) als"

definition abs_remove :: "addr list \<Rightarrow> lists \<Rightarrow> lists" where
  "abs_remove R als = map (\<lambda>(l, xs). (l, filter (\<lambda>x. x \<notin> set R) xs)) als"

text \<open>
  \<open>run_of f la als\<close>: the elements from \<open>f\<close> up to, and without, \<open>la\<close> in the list that
  has \<open>f\<close> as an element; up to the back of that list if \<open>la\<close> is its header.
\<close>

definition run_of :: "addr \<Rightarrow> addr \<Rightarrow> lists \<Rightarrow> addr list" where
  "run_of f la als =
     concat (map (\<lambda>(l, xs). takeWhile (\<lambda>x. x \<noteq> la) (dropWhile (\<lambda>x. x \<noteq> f) xs)) als)"

text \<open>Sequences of operations, run on the store and on the element sequences.\<close>

datatype list_op = Insert addr addr | Remove addr | Splice addr addr addr

fun exec_op :: "list_op \<Rightarrow> heap \<Rightarrow> heap option" where
  "exec_op (Insert before elem) h = list_insert h before elem"
| "exec_op (Remove elem) h = map_option fst (list_remove h elem)"
| "exec_op (Splice before first last0) h = list_splice h before first last0"

fun exec_ops :: "list_op list \<Rightarrow> heap \<Rightarrow> heap option" where
  "exec_ops [] h = Some h"
| "exec_ops (x # ops) h = do { h' \<leftarrow> exec_op x h; exec_ops ops h' }"

fun abs_op :: "list_op \<Rightarrow> lists \<Rightarrow> lists" where
  "abs_op (Insert before elem) als = abs_insert before [elem] als"
| "abs_op (Remove elem) als = abs_remove [elem] als"
| "abs_op (Splice before first last0) als =
     (if first = last0 then als
      else abs_insert before (run_of first last0 als) (abs_remove (run_of first last0 als) als))"

fun abs_ops :: "list_op list \<Rightarrow> lists \<Rightarrow> lists" where
  "abs_ops [] als = als"
| "abs_ops (x # ops) als = abs_ops ops (abs_op x als)"

text \<open>
  The preconditions of the operations, for a store with the nodes \<open>D\<close>. Insert: \<open>before\<close>
  is a node of a list, \<open>elem\<close> is a node of the store and of no list. Remove: \<open>elem\<close> is an
  element of a list. Splice with \<open>first \<noteq> last\<close>: \<open>first\<close> is an element of a list,
  \<open>last\<close> is a later element of the same list or its header (so that the range is a run
  of elements), and \<open>before\<close> is a node of a list outside the run.
\<close>

fun pre_op :: "addr set \<Rightarrow> list_op \<Rightarrow> lists \<Rightarrow> bool" where
  "pre_op D (Insert before elem) als =
     (before \<in> set (nodes_of als) \<and> elem \<notin> set (nodes_of als) \<and> elem \<in> D)"
| "pre_op D (Remove elem) als = (\<exists>(l, xs) \<in> set als. elem \<in> set xs)"
| "pre_op D (Splice before first last0) als =
     (first = last0 \<or>
      ((\<exists>(l, xs) \<in> set als. first \<in> set xs \<and>
           (last0 = l \<or> last0 \<in> set (dropWhile (\<lambda>x. x \<noteq> first) xs)))
       \<and> before \<in> set (nodes_of als) \<and> before \<notin> set (run_of first last0 als)))"

fun pre_ops :: "addr set \<Rightarrow> list_op list \<Rightarrow> lists \<Rightarrow> bool" where
  "pre_ops D [] als = True"
| "pre_ops D (x # ops) als = (pre_op D x als \<and> pre_ops D ops (abs_op x als))"

fun inserts :: "list_op list \<Rightarrow> nat" where
  "inserts [] = 0"
| "inserts (Insert b e # ops) = Suc (inserts ops)"
| "inserts (x # ops) = inserts ops"

fun removes :: "list_op list \<Rightarrow> nat" where
  "removes [] = 0"
| "removes (Remove e # ops) = Suc (removes ops)"
| "removes (x # ops) = removes ops"

subsection \<open>Concrete stores\<close>

text \<open>\<open>hw\<close>: the header 1 with the elements 2 and 3. \<open>h_empty\<close>: the header 1 alone.\<close>

definition hw :: heap where
  "hw = [1 \<mapsto> \<lparr>prev = 3, next = 2\<rparr>, 2 \<mapsto> \<lparr>prev = 1, next = 3\<rparr>, 3 \<mapsto> \<lparr>prev = 2, next = 1\<rparr>]"

definition h_empty :: heap where
  "h_empty = [1 \<mapsto> \<lparr>prev = 1, next = 1\<rparr>]"

text \<open>
  \<open>h_ops\<close>: the empty lists with the headers 1 and 5, and three nodes 2, 3, 4 that are in
  no list (their pointers hold no node's address).
\<close>

definition h_ops :: heap where
  "h_ops = [1 \<mapsto> \<lparr>prev = 1, next = 1\<rparr>, 2 \<mapsto> \<lparr>prev = 0, next = 0\<rparr>,
            3 \<mapsto> \<lparr>prev = 0, next = 0\<rparr>, 4 \<mapsto> \<lparr>prev = 0, next = 0\<rparr>,
            5 \<mapsto> \<lparr>prev = 5, next = 5\<rparr>]"

definition ops_two :: "list_op list" where
  "ops_two = [Insert 1 2, Insert 1 3, Insert 2 4, Splice 5 2 1, Remove 3]"

definition ops_one :: "list_op list" where
  "ops_one = [Insert 1 2, Insert 1 3, Insert 2 4, Splice 4 3 1, Remove 2]"

text \<open>\<open>h_two\<close>: the header 1 with the elements 2 and 3, and the header 5 with the element 6.\<close>

definition h_two :: heap where
  "h_two = [1 \<mapsto> \<lparr>prev = 3, next = 2\<rparr>, 2 \<mapsto> \<lparr>prev = 1, next = 3\<rparr>,
            3 \<mapsto> \<lparr>prev = 2, next = 1\<rparr>, 5 \<mapsto> \<lparr>prev = 6, next = 6\<rparr>,
            6 \<mapsto> \<lparr>prev = 5, next = 5\<rparr>]"

text \<open>
  \<open>h_self\<close>: the store that \<^verbatim>\<open>list_splice(2, 2, 3)\<close> makes of \<open>hw\<close>: the header 1
  leads to node 2, whose \<^verbatim>\<open>next\<close> is node 2 itself.
\<close>

definition h_self :: heap where
  "h_self = [1 \<mapsto> \<lparr>prev = 3, next = 2\<rparr>, 2 \<mapsto> \<lparr>prev = 2, next = 2\<rparr>,
             3 \<mapsto> \<lparr>prev = 1, next = 1\<rparr>]"

text \<open>
  \<open>h_removed\<close>: the store that \<^verbatim>\<open>list_remove(2)\<close> makes of \<open>hw\<close>: the header 1
  and node 3 reference each other, node 2 still holds its old pointers.
\<close>

definition h_removed :: heap where
  "h_removed = [1 \<mapsto> \<lparr>prev = 3, next = 3\<rparr>, 2 \<mapsto> \<lparr>prev = 1, next = 3\<rparr>,
                3 \<mapsto> \<lparr>prev = 1, next = 1\<rparr>]"


section \<open>The operations as updates of the two pointer maps\<close>

text \<open>
  Insertion, removal and splicing are compositions of \<open>unlink\<close> and \<open>link\<close>; the
  equations hold by unfolding the definitions.
\<close>

lemma list_insert_link: "list_insert h b e = link h b e e"
  by (simp add: list_insert_def link_def)

lemma list_remove_unlink:
  "list_remove h e = do { h' \<leftarrow> unlink h e e; r \<leftarrow> get_next h' e; Some (h', r) }"
  by (simp add: list_remove_def unlink_def)

lemma list_splice_unlink_link:
  "list_splice h b f l =
     (if f = l then Some h else do { t \<leftarrow> get_prev h l; h1 \<leftarrow> unlink h f t; link h1 b f t })"
  by (simp add: list_splice_def unlink_def link_def)

text \<open>
  A store is determined by its two maps \<open>get_next h\<close> and \<open>get_prev h\<close>. On allocated
  nodes every store of the programs succeeds and updates one of the maps at one point.
\<close>

lemma set_next_effect:
  assumes "p \<in> dom h"
  shows "\<exists>h'. set_next h p v = Some h' \<and> get_next h' = (get_next h)(p \<mapsto> v)
           \<and> get_prev h' = get_prev h \<and> dom h' = dom h"
proof -
  from assms obtain n where n: "h p = Some n" by auto
  have "get_next (h(p \<mapsto> n\<lparr>next := v\<rparr>)) = (get_next h)(p \<mapsto> v)"
    by (rule ext) (simp add: get_next_def)
  moreover have "get_prev (h(p \<mapsto> n\<lparr>next := v\<rparr>)) = get_prev h"
    by (rule ext) (simp add: get_prev_def n)
  moreover have "dom (h(p \<mapsto> n\<lparr>next := v\<rparr>)) = dom h"
    using n by auto
  ultimately show ?thesis using n by (simp add: set_next_def)
qed

lemma set_prev_effect:
  assumes "p \<in> dom h"
  shows "\<exists>h'. set_prev h p v = Some h' \<and> get_prev h' = (get_prev h)(p \<mapsto> v)
           \<and> get_next h' = get_next h \<and> dom h' = dom h"
proof -
  from assms obtain n where n: "h p = Some n" by auto
  have "get_prev (h(p \<mapsto> n\<lparr>prev := v\<rparr>)) = (get_prev h)(p \<mapsto> v)"
    by (rule ext) (simp add: get_prev_def)
  moreover have "get_next (h(p \<mapsto> n\<lparr>prev := v\<rparr>)) = get_next h"
    by (rule ext) (simp add: get_next_def n)
  moreover have "dom (h(p \<mapsto> n\<lparr>prev := v\<rparr>)) = dom h"
    using n by auto
  ultimately show ?thesis using n by (simp add: set_prev_def)
qed

lemma unlink_effect:
  assumes "get_prev h f = Some p" "get_next h t = Some s" "p \<in> dom h" "s \<in> dom h"
  shows "\<exists>h'. unlink h f t = Some h' \<and> get_next h' = (get_next h)(p \<mapsto> s)
           \<and> get_prev h' = (get_prev h)(s \<mapsto> p) \<and> dom h' = dom h"
proof -
  from set_next_effect [OF assms(3), of s] obtain h1 where
    h1: "set_next h p s = Some h1" "get_next h1 = (get_next h)(p \<mapsto> s)"
        "get_prev h1 = get_prev h" "dom h1 = dom h" by blast
  have tn1: "get_next h1 t = Some s" using h1(2) assms(2) by simp
  have fp1: "get_prev h1 f = Some p" using h1(3) assms(1) by simp
  from assms(4) h1(4) have "s \<in> dom h1" by simp
  from set_prev_effect [OF this, of p] obtain h2 where
    h2: "set_prev h1 s p = Some h2" "get_prev h2 = (get_prev h1)(s \<mapsto> p)"
        "get_next h2 = get_next h1" "dom h2 = dom h1" by blast
  have "unlink h f t = Some h2"
    by (simp add: unlink_def assms(1,2) h1(1) tn1 fp1 h2(1))
  then show ?thesis using h1 h2 by simp
qed

lemma link_effect:
  assumes "get_prev h b = Some bp" "bp \<in> dom h" "f \<in> dom h" "t \<in> dom h"
  shows "\<exists>h'. link h b f t = Some h' \<and> get_next h' = (get_next h)(t \<mapsto> b, bp \<mapsto> f)
           \<and> get_prev h' = (get_prev h)(f \<mapsto> bp, b \<mapsto> t) \<and> dom h' = dom h"
proof -
  have b: "b \<in> dom h" using assms(1) by (auto simp: get_prev_def)
  from set_prev_effect [OF assms(3), of bp] obtain h1 where
    h1: "set_prev h f bp = Some h1" "get_prev h1 = (get_prev h)(f \<mapsto> bp)"
        "get_next h1 = get_next h" "dom h1 = dom h" by blast
  from assms(4) h1(4) have "t \<in> dom h1" by simp
  from set_next_effect [OF this, of b] obtain h2 where
    h2: "set_next h1 t b = Some h2" "get_next h2 = (get_next h1)(t \<mapsto> b)"
        "get_prev h2 = get_prev h1" "dom h2 = dom h1" by blast
  have bp2: "get_prev h2 b = Some bp" using h2(3) h1(2) assms(1) by simp
  from assms(2) h1(4) h2(4) have "bp \<in> dom h2" by simp
  from set_next_effect [OF this, of f] obtain h3 where
    h3: "set_next h2 bp f = Some h3" "get_next h3 = (get_next h2)(bp \<mapsto> f)"
        "get_prev h3 = get_prev h2" "dom h3 = dom h2" by blast
  from b h1(4) h2(4) h3(4) have "b \<in> dom h3" by simp
  from set_prev_effect [OF this, of t] obtain h4 where
    h4: "set_prev h3 b t = Some h4" "get_prev h4 = (get_prev h3)(b \<mapsto> t)"
        "get_next h4 = get_next h3" "dom h4 = dom h3" by blast
  have "link h b f t = Some h4"
    by (simp add: link_def assms(1) h1(1) h2(1) bp2 h3(1) h4(1))
  then show ?thesis using h1 h2 h3 h4 by simp
qed

section \<open>Paths\<close>

lemma path_append: "path h a (xs @ ys) = (path h a xs \<and> path h (last (a # xs)) ys)"
  by (induction xs arbitrary: a) auto

lemma path_cong:
  assumes "\<And>n. n \<in> set (butlast (a # xs)) \<Longrightarrow> get_next h' n = get_next h n"
    and "\<And>n. n \<in> set xs \<Longrightarrow> get_prev h' n = get_prev h n"
  shows "path h' a xs = path h a xs"
  using assms by (induction xs arbitrary: a) auto

lemma path_dom: "path h a xs \<Longrightarrow> set xs \<subseteq> dom h"
  by (induction xs arbitrary: a) (auto simp: get_prev_def)

lemma ring_split:
  assumes "xs @ [l] = A @ b # B"
  shows "(B = [] \<and> b = l \<and> A = xs) \<or> (\<exists>B0. B = B0 @ [l] \<and> xs = A @ b # B0)"
proof (cases B rule: rev_cases)
  case Nil
  with assms show ?thesis by simp
next
  case (snoc B0 x)
  with assms have "xs @ [l] = (A @ b # B0) @ [x]" by simp
  then have "xs = A @ b # B0 \<and> l = x" by (simp only: append1_eq_conv)
  with snoc show ?thesis by simp
qed

lemma last_notin_butlast: "distinct xs \<Longrightarrow> xs \<noteq> [] \<Longrightarrow> last xs \<notin> set (butlast xs)"
  by (induction xs) (auto dest: in_set_butlastD)

subsection \<open>Taking a run out of a path\<close>

lemma path_unlink:
  assumes p: "path h a (A @ R @ c # C)"
    and R: "R \<noteq> []"
    and d: "distinct (a # A @ R)" "c \<notin> set (A @ R)" "c \<notin> set C"
          "set (butlast (c # C)) \<inter> set (a # A) = {}"
    and n: "get_next h' = (get_next h)(last (a # A) \<mapsto> c)"
    and v: "get_prev h' = (get_prev h)(c \<mapsto> last (a # A))"
  shows "path h' a (A @ c # C) \<and> path h' (hd R) (tl R)"
proof -
  let ?p = "last (a # A)"
  from p have pA: "path h a A" and pR: "path h ?p R" and pC: "path h (last R) (c # C)"
    using R by (simp_all add: path_append)
  have in_A: "?p \<in> set (a # A)" by (rule last_in_set) simp
  have nb: "?p \<notin> set (butlast (a # A))"
    using d(1) by (intro last_notin_butlast) auto
  have "path h' a A = path h a A"
  proof (rule path_cong)
    fix n assume "n \<in> set (butlast (a # A))"
    with nb have "n \<noteq> ?p" by auto
    then show "get_next h' n = get_next h n" by (simp add: n)
  next
    fix n assume "n \<in> set A"
    with d(2) have "n \<noteq> c" by auto
    then show "get_prev h' n = get_prev h n" by (simp add: v)
  qed
  with pA have 1: "path h' a A" by simp
  have "path h' c C = path h c C"
  proof (rule path_cong)
    fix n assume "n \<in> set (butlast (c # C))"
    with d(4) in_A have "n \<noteq> ?p" by auto
    then show "get_next h' n = get_next h n" by (simp add: n)
  next
    fix n assume "n \<in> set C"
    with d(3) have "n \<noteq> c" by auto
    then show "get_prev h' n = get_prev h n" by (simp add: v)
  qed
  with pC have 2: "path h' c C" by simp
  obtain f R' where Rf: "R = f # R'" using R by (cases R) auto
  have "path h' f R' = path h f R'"
  proof (rule path_cong)
    fix n assume "n \<in> set (butlast (f # R'))"
    then have "n \<in> set R" unfolding Rf by (rule in_set_butlastD)
    with d(1) in_A have "n \<noteq> ?p" by auto
    then show "get_next h' n = get_next h n" by (simp add: n)
  next
    fix n assume "n \<in> set R'"
    with d(2) Rf have "n \<noteq> c" by auto
    then show "get_prev h' n = get_prev h n" by (simp add: v)
  qed
  with pR Rf have 3: "path h' (hd R) (tl R)" by simp
  from 1 2 3 show ?thesis by (simp add: path_append n v)
qed

lemma clist_unlink:
  assumes c: "clist h l (A @ R @ B)" and R: "R \<noteq> []"
    and n: "get_next h' = (get_next h)(last (l # A) \<mapsto> hd (B @ [l]))"
    and v: "get_prev h' = (get_prev h)(hd (B @ [l]) \<mapsto> last (l # A))"
  shows "clist h' l (A @ B) \<and> path h' (hd R) (tl R)"
proof -
  obtain c C where cC: "B @ [l] = c # C" by (cases B) auto
  from c have d: "distinct (l # A @ R @ B)" and p: "path h l (A @ R @ c # C)"
    by (simp_all add: clist_def cC [symmetric])
  have "path h' l (A @ c # C) \<and> path h' (hd R) (tl R)"
  proof (rule path_unlink [OF p R])
    show "distinct (l # A @ R)" using d by auto
    show "c \<notin> set (A @ R)" using d cC by (cases B) auto
    show "c \<notin> set C" using d cC by (cases B) auto
    have "butlast (c # C) = B" using cC by (metis butlast_snoc)
    then show "set (butlast (c # C)) \<inter> set (l # A) = {}"
      using d by auto
    show "get_next h' = (get_next h)(last (l # A) \<mapsto> c)" using n cC by simp
    show "get_prev h' = (get_prev h)(c \<mapsto> last (l # A))" using v cC by simp
  qed
  moreover have "path h' l (A @ c # C) = path h' l ((A @ B) @ [l])" using cC by simp
  moreover have "distinct (l # A @ B)" using d by auto
  ultimately show ?thesis unfolding clist_def by blast
qed

subsection \<open>Putting a run into a path\<close>

lemma path_link:
  assumes p: "path h a (A @ b # B)"
    and r: "path h f R'"
    and d: "distinct (a # A)" "b \<notin> set A" "b \<notin> set B"
          "set (butlast (b # B)) \<inter> set (a # A) = {}"
          "distinct (f # R')" "set (f # R') \<inter> set (a # A @ b # B) = {}"
    and n: "get_next h' = (get_next h)(last (f # R') \<mapsto> b, last (a # A) \<mapsto> f)"
    and v: "get_prev h' = (get_prev h)(f \<mapsto> last (a # A), b \<mapsto> last (f # R'))"
  shows "path h' a (A @ (f # R') @ b # B)"
proof -
  let ?p = "last (a # A)" and ?t = "last (f # R')"
  from p have pA: "path h a A" and pB: "path h b B"
    by (simp_all add: path_append)
  have in_A: "?p \<in> set (a # A)" by (rule last_in_set) simp
  have in_R: "?t \<in> set (f # R')" by (rule last_in_set) simp
  have nb: "?p \<notin> set (butlast (a # A))"
    using d(1) by (intro last_notin_butlast) auto
  have nt: "?t \<notin> set (butlast (f # R'))"
    using d(5) by (intro last_notin_butlast) auto
  have tp: "?t \<noteq> ?p" using in_A in_R d(6) by auto
  have fb: "f \<noteq> b" using d(6) by auto
  have "path h' a A = path h a A"
  proof (rule path_cong)
    fix n assume *: "n \<in> set (butlast (a # A))"
    then have "n \<in> set (a # A)" by (rule in_set_butlastD)
    moreover have "n \<noteq> ?p" using * nb by blast
    ultimately have "n \<noteq> ?p" "n \<noteq> ?t" using in_R d(6) by auto
    then show "get_next h' n = get_next h n" by (simp add: n)
  next
    fix n assume "n \<in> set A"
    then have "n \<noteq> b" "n \<noteq> f" using d(2,6) by auto
    then show "get_prev h' n = get_prev h n" by (simp add: v)
  qed
  with pA have 1: "path h' a A" by simp
  have "path h' b B = path h b B"
  proof (rule path_cong)
    fix n assume *: "n \<in> set (butlast (b # B))"
    then have "n \<in> set (b # B)" by (rule in_set_butlastD)
    then have "n \<noteq> ?t" using in_R d(6) by auto
    moreover have "n \<noteq> ?p" using * d(4) in_A by auto
    ultimately show "get_next h' n = get_next h n" by (simp add: n)
  next
    fix n assume "n \<in> set B"
    then have "n \<noteq> b" "n \<noteq> f" using d(3,6) by auto
    then show "get_prev h' n = get_prev h n" by (simp add: v)
  qed
  with pB have 2: "path h' b B" by simp
  have "path h' f R' = path h f R'"
  proof (rule path_cong)
    fix n assume *: "n \<in> set (butlast (f # R'))"
    then have "n \<in> set (f # R')" by (rule in_set_butlastD)
    then have "n \<noteq> ?p" using in_A d(6) by auto
    moreover have "n \<noteq> ?t" using * nt by auto
    ultimately show "get_next h' n = get_next h n" by (simp add: n)
  next
    fix n assume "n \<in> set R'"
    then have "n \<noteq> b" "n \<noteq> f" using d(5,6) by auto
    then show "get_prev h' n = get_prev h n" by (simp add: v)
  qed
  with r have 3: "path h' f R'" by simp
  have 4: "get_next h' ?p = Some f" "get_prev h' f = Some ?p" 
    "get_next h' ?t = Some b" "get_prev h' b = Some ?t"
    using tp fb by (simp_all add: n v)
  have "path h' ?p ((f # R') @ b # B)"
    unfolding path_append using 2 3 4 by simp
  with 1 show ?thesis by (simp only: path_append)
qed

lemma clist_link:
  assumes c: "clist h l ys" and pos: "ys @ [l] = A @ b # B"
    and r: "path h f R'" "distinct (f # R')" "set (f # R') \<inter> set (l # ys) = {}"
    and n: "get_next h' = (get_next h)(last (f # R') \<mapsto> b, last (l # A) \<mapsto> f)"
    and v: "get_prev h' = (get_prev h)(f \<mapsto> last (l # A), b \<mapsto> last (f # R'))"
  shows "path h' l (A @ (f # R') @ b # B)"
proof -
  from c have d: "distinct (l # ys)" and p: "path h l (A @ b # B)"
    by (simp_all add: clist_def pos)
  from ring_split [OF pos] consider
    (last) "B = []" "b = l" "A = ys" | (mid) B0 where "B = B0 @ [l]" "ys = A @ b # B0"
    by blast
  then show ?thesis
  proof cases
    case last
    show ?thesis
      by (rule path_link [OF p r(1) _ _ _ _ r(2) _ n v]) (use d r(3) last in auto)
  next
    case mid
    show ?thesis
      by (rule path_link [OF p r(1) _ _ _ _ r(2) _ n v])
         (use d r(3) mid in \<open>auto simp: butlast_append\<close>)
  qed
qed

section \<open>Size, emptiness, front and back\<close>

text \<open>
  The nodes of a list are pairwise different 64-bit addresses, so a list has fewer than
  \<open>2 ^ 64\<close> elements and the counter of \<^verbatim>\<open>list_size\<close> does not wrap.
\<close>

lemma distinct_addr_length:
  assumes "distinct (ns :: addr list)"
  shows "length ns \<le> 2 ^ 64"
proof -
  have "length ns = card (set ns)" using assms by (simp add: distinct_card)
  also have "\<dots> \<le> card (UNIV :: addr set)" by (rule card_mono) simp_all
  also have "\<dots> = 2 ^ 64" by (simp add: card_word)
  finally show ?thesis .
qed

lemma clist_length: "clist h l xs \<Longrightarrow> length xs < 2 ^ 64"
  using distinct_addr_length [of "l # xs"] by (simp add: clist_def)

lemma unat_of_nat_length:
  "n < 2 ^ 64 \<Longrightarrow> unat (of_nat n :: 64 word) = n"
  by (simp add: unat_of_nat)

lemma list_size_loop_path:
  "path h a (ys @ [l]) \<Longrightarrow> l \<notin> set ys \<Longrightarrow>
     (do { e \<leftarrow> get_next h a; list_size_loop h l e cnt }) = Some (cnt + of_nat (length ys))"
proof (induction ys arbitrary: a cnt)
  case Nil
  then show ?case by (simp add: list_size_loop.simps)
next
  case (Cons y ys)
  from Cons.prems have n: "get_next h a = Some y" and yl: "y \<noteq> l"
    and p: "path h y (ys @ [l])" and l: "l \<notin> set ys" by auto
  have "list_size_loop h l y cnt = (do { e \<leftarrow> get_next h y; list_size_loop h l e (cnt + 1) })"
    using yl by (subst list_size_loop.simps) simp
  also have "\<dots> = Some (cnt + 1 + of_nat (length ys))"
    by (rule Cons.IH [OF p l])
  finally show ?case using n by (simp add: add.assoc)
qed

lemma clist_size: "clist h l xs \<Longrightarrow> list_size h l = Some (of_nat (length xs))"
  unfolding list_size_def clist_def
  using list_size_loop_path [of h l xs l 0] by simp

lemma clist_next_head: "clist h l xs \<Longrightarrow> get_next h l = Some (hd (xs @ [l]))"
  by (cases xs) (simp_all add: clist_def)

lemma clist_prev_head: "clist h l xs \<Longrightarrow> get_prev h l = Some (last (l # xs))"
  unfolding clist_def path_append by simp

lemma hd_last_short:
  assumes "distinct (l # xs)"
  shows "hd (xs @ [l]) = last (l # xs) \<longleftrightarrow> length xs \<le> 1"
proof (cases xs)
  case Nil
  then show ?thesis by simp
next
  case (Cons x ys)
  show ?thesis
  proof (cases ys)
    case Nil
    with Cons show ?thesis by simp
  next
    case (Cons y zs)
    have "last (y # zs) \<in> set (y # zs)" by (rule last_in_set) simp
    with assms \<open>xs = x # ys\<close> Cons have "x \<noteq> last (y # zs)" by auto
    with \<open>xs = x # ys\<close> Cons show ?thesis by simp
  qed
qed

lemma hw_clist: "clist hw 1 [2, 3]"
  by (simp add: clist_def hw_def get_next_def get_prev_def)

lemma h_empty_clist: "clist h_empty 1 []"
  by (simp add: clist_def h_empty_def get_next_def get_prev_def)

text \<open>
  Claim C7. On a well-formed circular list the constant-time properties agree with the
  count that \<^verbatim>\<open>list_size\<close> returns, and that count is the number of elements
  (the counter does not wrap: the nodes are different addresses):
  \<^verbatim>\<open>list_is_empty\<close> holds iff the size is 0, \<^verbatim>\<open>list_is_singleton\<close> iff it is 1,
  \<^verbatim>\<open>list_is_short\<close> iff it is at most 1.
\<close>

theorem list_properties_agree_with_size:
  assumes "clist h l xs"
  shows "\<exists>e s sh n. list_is_empty h l = Some e \<and> list_is_singleton h l = Some s
           \<and> list_is_short h l = Some sh \<and> list_size h l = Some n
           \<and> unat n = length xs
           \<and> (e \<longleftrightarrow> n = 0) \<and> (s \<longleftrightarrow> n = 1) \<and> (sh \<longleftrightarrow> n \<le> 1)"
proof -
  let ?n = "of_nat (length xs) :: 64 word"
  have len: "length xs < 2 ^ 64" using assms by (rule clist_length)
  have u: "unat ?n = length xs" using len by (rule unat_of_nat_length)
  have d: "distinct (l # xs)" using assms by (simp add: clist_def)
  have nx: "get_next h l = Some (hd (xs @ [l]))" using assms by (rule clist_next_head)
  have pv: "get_prev h l = Some (last (l # xs))" using assms by (rule clist_prev_head)
  have hl: "hd (xs @ [l]) = l \<longleftrightarrow> xs = []" using d by (cases xs) auto
  have e: "list_is_empty h l = Some (xs = [])"
    by (simp add: list_is_empty_def nx hl)
  have sh: "list_is_short h l = Some (length xs \<le> 1)"
    using hd_last_short [OF d] by (simp add: list_is_short_def nx pv del: last.simps)
  have s: "list_is_singleton h l = Some (length xs = 1)"
    by (cases xs) (auto simp add: list_is_singleton_def sh e)
  have "(xs = []) \<longleftrightarrow> ?n = 0" using u by (simp add: word_eq_iff_unsigned [where ?'a = nat])
  moreover have "(length xs = 1) \<longleftrightarrow> ?n = 1" using u by (simp add: word_eq_iff_unsigned [where ?'a = nat])
  moreover have "(length xs \<le> 1) \<longleftrightarrow> ?n \<le> 1" using u by (simp add: word_le_nat_alt)
  ultimately show ?thesis
    using e s sh clist_size [OF assms] u by simp
qed


theorem list_properties_agree_with_size_witness:
  "clist hw 1 [2, 3] \<and> list_is_empty hw 1 = Some False \<and> list_is_singleton hw 1 = Some False
   \<and> list_is_short hw 1 = Some False \<and> (\<exists>n. list_size hw 1 = Some n \<and> unat n = 2)"
  using list_properties_agree_with_size [OF hw_clist] hw_clist
  by (auto simp: word_le_nat_alt)

lemma clist_empty_is_empty: "clist h l [] \<Longrightarrow> list_is_empty h l = Some True"
  by (simp add: clist_def list_is_empty_def)

text \<open>
  Claim C6. \<^verbatim>\<open>list_front\<close> and \<^verbatim>\<open>list_back\<close> end in an assertion failure on an
  empty list (a header whose \<^verbatim>\<open>next\<close> is itself, as the header of a well-formed list
  without elements is). On a well-formed list with elements the assertion passes,
  \<^verbatim>\<open>list_front\<close> returns the first element, which is the header's \<^verbatim>\<open>next\<close>, and
  \<^verbatim>\<open>list_back\<close> the last element, which is the header's \<^verbatim>\<open>prev\<close>.
\<close>

theorem front_back_assert:
  "(list_is_empty h l = Some True \<longrightarrow>
      list_front h l = Inl Assertion_Failed \<and> list_back h l = Inl Assertion_Failed)
   \<and> (clist h l [] \<longrightarrow> list_is_empty h l = Some True)
   \<and> (clist h l xs \<and> xs \<noteq> [] \<longrightarrow>
        list_is_empty h l = Some False
        \<and> list_front h l = Inr (hd xs) \<and> get_next h l = Some (hd xs)
        \<and> list_back h l = Inr (last xs) \<and> get_prev h l = Some (last xs))"
proof (intro conjI impI)
  assume "list_is_empty h l = Some True"
  then show "list_front h l = Inl Assertion_Failed" "list_back h l = Inl Assertion_Failed"
    by (simp_all add: list_front_def list_back_def ovs_assert_def)
next
  assume "clist h l []"
  then show "list_is_empty h l = Some True" by (rule clist_empty_is_empty)
next
  assume a: "clist h l xs \<and> xs \<noteq> []"
  then have c: "clist h l xs" and ne: "xs \<noteq> []" by simp_all
  have d: "distinct (l # xs)" using c by (simp add: clist_def)
  have nx: "get_next h l = Some (hd xs)" using clist_next_head [OF c] ne by simp
  have pv: "get_prev h l = Some (last xs)" using clist_prev_head [OF c] ne by simp
  have "hd xs \<noteq> l" using d ne by (cases xs) auto
  then have e: "list_is_empty h l = Some False" by (simp add: list_is_empty_def nx)
  show "list_is_empty h l = Some False" by (rule e)
  show "get_next h l = Some (hd xs)" by (rule nx)
  show "get_prev h l = Some (last xs)" by (rule pv)
  show "list_front h l = Inr (hd xs)" by (simp add: list_front_def e ovs_assert_def nx)
  show "list_back h l = Inr (last xs)" by (simp add: list_back_def e ovs_assert_def pv)
qed

theorem front_back_assert_witness:
  "list_is_empty h_empty 1 = Some True \<and> clist h_empty 1 []
   \<and> list_front h_empty 1 = Inl Assertion_Failed \<and> list_back h_empty 1 = Inl Assertion_Failed
   \<and> clist hw 1 [2, 3] \<and> list_front hw 1 = Inr 2 \<and> list_back hw 1 = Inr 3"
  using front_back_assert [of h_empty 1 "[]"] front_back_assert [of hw 1 "[2, 3]"]
    hw_clist h_empty_clist
  by simp


section \<open>Runs in a circular list\<close>

lemma node_eqI:
  "get_next h' n = get_next h n \<Longrightarrow> get_prev h' n = get_prev h n \<Longrightarrow> h' n = h n"
  by (cases "h' n"; cases "h n") (simp_all add: get_next_def get_prev_def)

lemma path_frame:
  assumes "\<And>n. n \<in> set (a # xs) \<Longrightarrow> h' n = h n"
  shows "path h' a xs = path h a xs"
proof (rule path_cong)
  fix n assume "n \<in> set (butlast (a # xs))"
  then have "n \<in> set (a # xs)" by (rule in_set_butlastD)
  then show "get_next h' n = get_next h n" by (simp only: get_next_def assms)
next
  fix n assume "n \<in> set xs"
  then have "n \<in> set (a # xs)" by simp
  then show "get_prev h' n = get_prev h n" by (simp only: get_prev_def assms)
qed

lemma path_last_prev:
  "path h a (xs @ [b]) \<Longrightarrow> get_prev h b = Some (last (a # xs)) \<and> get_next h (last (a # xs)) = Some b"
  unfolding path_append by simp

lemma path_mid:
  assumes "path h a (A @ R @ C)" "R \<noteq> []"
  shows "get_prev h (hd R) = Some (last (a # A))" "path h (hd R) (tl R)"
proof -
  obtain f R' where R: "R = f # R'" using assms(2) by (cases R) auto
  from assms(1) have "path h (last (a # A)) (R @ C)" by (simp only: path_append)
  then have "path h (last (a # A)) (f # R')" unfolding R path_append by (rule conjunct1)
  then show "get_prev h (hd R) = Some (last (a # A))" "path h (hd R) (tl R)"
    unfolding R by (simp_all del: last.simps)
qed

lemma path_mid_next:
  assumes "path h a (A @ R @ c # C)" "R \<noteq> []"
  shows "get_next h (last R) = Some c"
proof -
  from assms(1) have "path h a ((A @ R) @ c # C)" by simp
  then have "path h (last (a # A @ R)) (c # C)" by (simp only: path_append)
  then show ?thesis using assms(2) by simp
qed

lemma clist_dom: "clist h l xs \<Longrightarrow> set (l # xs) \<subseteq> dom h"
  unfolding clist_def using path_dom [of h l "xs @ [l]"] by auto

lemma clist_unlink_run:
  assumes c: "clist h l (A @ R @ B)" and R: "R \<noteq> []"
  shows "\<exists>h'. unlink h (hd R) (last R) = Some h' \<and> clist h' l (A @ B)
           \<and> path h' (hd R) (tl R) \<and> dom h' = dom h
           \<and> get_next h' = (get_next h)(last (l # A) \<mapsto> hd (B @ [l]))
           \<and> get_prev h' = (get_prev h)(hd (B @ [l]) \<mapsto> last (l # A))"
proof -
  obtain c0 C where cC: "B @ [l] = c0 # C" by (cases B) auto
  from c have p: "path h l (A @ R @ c0 # C)" by (simp add: clist_def cC [symmetric])
  have fp: "get_prev h (hd R) = Some (last (l # A))" by (rule path_mid(1) [OF p R])
  have tn: "get_next h (last R) = Some (hd (B @ [l]))"
    using path_mid_next [OF p R] cC by simp
  have "last (l # A) \<in> set (l # A)" by (rule last_in_set) simp
  then have d1: "last (l # A) \<in> dom h" using clist_dom [OF c] by auto
  have "hd (B @ [l]) \<in> set (B @ [l])" by (rule hd_in_set) simp
  then have d2: "hd (B @ [l]) \<in> dom h" using clist_dom [OF c] by auto
  from unlink_effect [OF fp tn d1 d2] obtain h' where
    h': "unlink h (hd R) (last R) = Some h'"
        "get_next h' = (get_next h)(last (l # A) \<mapsto> hd (B @ [l]))"
        "get_prev h' = (get_prev h)(hd (B @ [l]) \<mapsto> last (l # A))" "dom h' = dom h"
    by blast
  from clist_unlink [OF c R h'(2,3)] h' show ?thesis by blast
qed

lemma clist_link_run:
  assumes c: "clist h l ys" and pos: "ys @ [l] = A @ b # B"
    and R: "R \<noteq> []" "path h (hd R) (tl R)" "distinct R" "set R \<inter> set (l # ys) = {}"
           "set R \<subseteq> dom h"
  shows "\<exists>h'. link h b (hd R) (last R) = Some h' \<and> path h' l (A @ R @ b # B)
           \<and> dom h' = dom h
           \<and> get_next h' = (get_next h)(last R \<mapsto> b, last (l # A) \<mapsto> hd R)
           \<and> get_prev h' = (get_prev h)(hd R \<mapsto> last (l # A), b \<mapsto> last R)"
proof -
  obtain f R' where Rf: "R = f # R'" using R(1) by (cases R) auto
  from c have p: "path h l (A @ [b] @ B)" by (simp add: clist_def pos)
  have bp: "get_prev h b = Some (last (l # A))" using path_mid(1) [OF p] by simp
  have "last (l # A) \<in> set (l # A)" by (rule last_in_set) simp
  moreover have "set (ys @ [l]) = set (A @ b # B)" by (simp only: pos)
  ultimately have "last (l # A) \<in> set (l # ys)" by auto
  then have d1: "last (l # A) \<in> dom h" using clist_dom [OF c] by auto
  have "hd R \<in> set R" "last R \<in> set R" using R(1) by simp_all
  then have d2: "hd R \<in> dom h" "last R \<in> dom h" using R(5) by blast+
  from link_effect [OF bp d1 d2] obtain h' where
    h': "link h b (hd R) (last R) = Some h'"
        "get_next h' = (get_next h)(last R \<mapsto> b, last (l # A) \<mapsto> hd R)"
        "get_prev h' = (get_prev h)(hd R \<mapsto> last (l # A), b \<mapsto> last R)" "dom h' = dom h"
    by blast
  have "path h' l (A @ (f # R') @ b # B)"
    by (rule clist_link [OF c pos]) (use R h' Rf in simp_all)
  with h' Rf show ?thesis by simp
qed

lemma insert_run_notin: "b \<notin> set xs \<Longrightarrow> insert_run b R xs = xs @ R"
  by (induction xs) auto

lemma insert_run_in: "b \<notin> set A \<Longrightarrow> insert_run b R (A @ b # B) = A @ R @ b # B"
  by (induction A) auto

lemma insert_run_split:
  assumes "ys @ [l] = A @ b # B" "distinct (l # ys)"
  shows "insert_run b R ys @ [l] = A @ R @ b # B"
  using ring_split [OF assms(1)]
proof (elim disjE conjE exE)
  assume "B = []" "b = l" "A = ys"
  then show ?thesis using assms(2) by (simp add: insert_run_notin)
next
  fix B0 assume "B = B0 @ [l]" "ys = A @ b # B0"
  then show ?thesis using assms(2) by (simp add: insert_run_in)
qed

lemma set_insert_run: "set (insert_run b R xs) = set R \<union> set xs"
  by (induction xs) auto

lemma length_insert_run: "length (insert_run b R xs) = length R + length xs"
  by (induction xs) auto

lemma distinct_insert_run:
  "distinct xs \<Longrightarrow> distinct R \<Longrightarrow> set R \<inter> set xs = {} \<Longrightarrow> distinct (insert_run b R xs)"
  by (induction xs) (auto simp: set_insert_run)


section \<open>Several lists: the element sequences\<close>

lemma nodes_of_Nil [simp]: "nodes_of [] = []"
  by (simp add: nodes_of_def)

lemma nodes_of_Cons [simp]: "nodes_of ((l, xs) # als) = l # xs @ nodes_of als"
  by (simp add: nodes_of_def)

lemma nodes_of_append [simp]: "nodes_of (as @ bs) = nodes_of as @ nodes_of bs"
  by (simp add: nodes_of_def)

lemma nodes_of_mem: "(l, xs) \<in> set als \<Longrightarrow> set (l # xs) \<subseteq> set (nodes_of als)"
  by (induction als) auto

lemma nodes_of_memD:
  "n \<in> set (nodes_of als) \<Longrightarrow> \<exists>pre l xs post. als = pre @ (l, xs) # post \<and> n \<in> set (l # xs)"
proof (induction als)
  case Nil
  then show ?case by simp
next
  case (Cons a als)
  obtain l xs where a: "a = (l, xs)" by (cases a)
  show ?case
  proof (cases "n \<in> set (l # xs)")
    case True
    then have "a # als = [] @ (l, xs) # als \<and> n \<in> set (l # xs)" by (simp add: a)
    then show ?thesis by blast
  next
    case False
    with Cons.prems a have "n \<in> set (nodes_of als)" by auto
    from Cons.IH [OF this] obtain pre l' xs' post where
      "als = pre @ (l', xs') # post" "n \<in> set (l' # xs')" by blast
    then have "a # als = (a # pre) @ (l', xs') # post \<and> n \<in> set (l' # xs')" by simp
    then show ?thesis by blast
  qed
qed

lemma wf_lists_clist: "wf_lists h als \<Longrightarrow> (l, xs) \<in> set als \<Longrightarrow> clist h l xs"
proof -
  assume w: "wf_lists h als" and m: "(l, xs) \<in> set als"
  from m obtain pre post where "als = pre @ (l, xs) # post" by (auto dest: split_list)
  with w have "distinct (l # xs)" by (simp add: wf_lists_def)
  moreover from w m have "path h l (xs @ [l])" by (auto simp: wf_lists_def)
  ultimately show ?thesis by (simp add: clist_def)
qed

lemma wf_lists_frame:
  assumes "\<forall>(l, xs) \<in> set als. path h l (xs @ [l])"
    and "\<And>n. n \<in> set (nodes_of als) \<Longrightarrow> h' n = h n"
  shows "\<forall>(l, xs) \<in> set als. path h' l (xs @ [l])"
proof (clarify)
  fix l xs assume m: "(l, xs) \<in> set als"
  have "path h' l (xs @ [l]) = path h l (xs @ [l])"
  proof (rule path_frame)
    fix n assume "n \<in> set (l # xs @ [l])"
    then have "n \<in> set (l # xs)" by auto
    with nodes_of_mem [OF m] show "h' n = h n" by (intro assms(2)) blast
  qed
  with assms(1) m show "path h' l (xs @ [l])" by auto
qed

lemma abs_remove_id: "set R \<inter> set (nodes_of als) = {} \<Longrightarrow> abs_remove R als = als"
proof (induction als)
  case Nil
  then show ?case by (simp add: abs_remove_def)
next
  case (Cons a als)
  obtain l xs where a: "a = (l, xs)" by (cases a)
  from Cons.prems a have "set R \<inter> set (nodes_of als) = {}" "\<forall>x\<in>set xs. x \<notin> set R"
    by auto
  with Cons.IH show ?case by (simp add: abs_remove_def a)
qed

lemma abs_remove_append: "abs_remove R (as @ bs) = abs_remove R as @ abs_remove R bs"
  by (simp add: abs_remove_def)

lemma abs_remove_decomp:
  assumes "distinct (nodes_of (pre @ (l, A @ R @ B) # post))"
  shows "abs_remove R (pre @ (l, A @ R @ B) # post) = pre @ (l, A @ B) # post"
proof -
  from assms have 1: "set R \<inter> set (nodes_of pre) = {}" "set R \<inter> set (nodes_of post) = {}"
    by auto
  from assms have "set A \<inter> set R = {}" "set R \<inter> set B = {}" by auto
  then have "filter (\<lambda>x. x \<notin> set R) A = A" "filter (\<lambda>x. x \<notin> set R) B = B"
    "filter (\<lambda>x. x \<notin> set R) R = []"
    by (auto simp: filter_id_conv filter_empty_conv)
  then have 2: "filter (\<lambda>x. x \<notin> set R) (A @ R @ B) = A @ B"
    by simp
  have "abs_remove R ((l, A @ R @ B) # post) = (l, A @ B) # abs_remove R post"
    using 2 by (simp add: abs_remove_def)
  then show ?thesis
    by (simp add: abs_remove_append abs_remove_id 1)
qed

lemma abs_insert_id: "b \<notin> set (nodes_of als) \<Longrightarrow> abs_insert b R als = als"
proof (induction als)
  case Nil
  then show ?case by (simp add: abs_insert_def)
next
  case (Cons a als)
  obtain l xs where a: "a = (l, xs)" by (cases a)
  from Cons.prems a have "b \<notin> set (nodes_of als)" "b \<notin> set (l # xs)" by auto
  with Cons.IH show ?case by (simp add: abs_insert_def a)
qed

lemma abs_insert_append: "abs_insert b R (as @ bs) = abs_insert b R as @ abs_insert b R bs"
  by (simp add: abs_insert_def)

lemma abs_insert_decomp:
  assumes "distinct (nodes_of (pre @ (l, ys) # post))" "b \<in> set (l # ys)"
  shows "abs_insert b R (pre @ (l, ys) # post) = pre @ (l, insert_run b R ys) # post"
proof -
  from assms have 1: "b \<notin> set (nodes_of pre)" "b \<notin> set (nodes_of post)" by auto
  have "abs_insert b R ((l, ys) # post) = (l, insert_run b R ys) # abs_insert b R post"
    using assms(2) by (simp add: abs_insert_def)
  then show ?thesis
    by (simp add: abs_insert_append abs_insert_id 1)
qed

lemma run_of_nil: "f \<notin> set (nodes_of als) \<Longrightarrow> run_of f la als = []"
proof (induction als)
  case Nil
  then show ?case by (simp add: run_of_def)
next
  case (Cons a als)
  obtain l xs where a: "a = (l, xs)" by (cases a)
  from Cons.prems a have "f \<notin> set (nodes_of als)" "f \<notin> set xs" by auto
  then have r: "run_of f la als = []" and d: "dropWhile (\<lambda>x. x \<noteq> f) xs = []"
    using Cons.IH by (auto simp add: dropWhile_eq_Nil_conv)
  have "run_of f la (a # als) =
          takeWhile (\<lambda>x. x \<noteq> la) (dropWhile (\<lambda>x. x \<noteq> f) xs) @ run_of f la als"
    by (simp add: run_of_def a)
  then show ?case by (simp only: r d) simp
qed

lemma run_of_append: "run_of f la (as @ bs) = run_of f la as @ run_of f la bs"
  by (simp add: run_of_def)

lemma run_of_decomp:
  assumes "distinct (nodes_of (pre @ (l, xs) # post))" "f \<in> set xs"
  shows "run_of f la (pre @ (l, xs) # post) =
           takeWhile (\<lambda>x. x \<noteq> la) (dropWhile (\<lambda>x. x \<noteq> f) xs)"
proof -
  from assms have 1: "f \<notin> set (nodes_of pre)" "f \<notin> set (nodes_of post)" by auto
  have "run_of f la ((l, xs) # post) =
          takeWhile (\<lambda>x. x \<noteq> la) (dropWhile (\<lambda>x. x \<noteq> f) xs) @ run_of f la post"
    by (simp add: run_of_def)
  then show ?thesis
    by (simp add: run_of_append run_of_nil 1)
qed

lemma total_size_append [simp]: "total_size (as @ bs) = total_size as + total_size bs"
  by (simp add: total_size_def)

lemma total_size_Cons [simp]: "total_size ((l, xs) # als) = length xs + total_size als"
  by (simp add: total_size_def)


section \<open>Several lists: the store\<close>

text \<open>
  Taking a run out of one list, or putting a run into one list, writes nodes of that list
  and of the run only; the other lists of the store keep their paths.
\<close>

lemma wf_unlink:
  assumes w: "wf_lists h (pre @ (l, A @ R @ B) # post)" and R: "R \<noteq> []"
  shows "\<exists>h'. unlink h (hd R) (last R) = Some h'
           \<and> wf_lists h' (pre @ (l, A @ B) # post)
           \<and> path h' (hd R) (tl R) \<and> dom h' = dom h
           \<and> get_next h' = (get_next h)(last (l # A) \<mapsto> hd (B @ [l]))
           \<and> get_prev h' = (get_prev h)(hd (B @ [l]) \<mapsto> last (l # A))"
proof -
  let ?als = "pre @ (l, A @ R @ B) # post"
  let ?p = "last (l # A)" and ?s = "hd (B @ [l])"
  from w have d: "distinct (nodes_of ?als)"
    and ps: "\<forall>(l, xs) \<in> set (pre @ post). path h l (xs @ [l])"
    by (auto simp: wf_lists_def)
  have c: "clist h l (A @ R @ B)" by (rule wf_lists_clist [OF w]) simp
  from clist_unlink_run [OF c R] obtain h' where
    h': "unlink h (hd R) (last R) = Some h'" "clist h' l (A @ B)"
        "path h' (hd R) (tl R)" "dom h' = dom h"
        "get_next h' = (get_next h)(?p \<mapsto> ?s)" "get_prev h' = (get_prev h)(?s \<mapsto> ?p)"
    by blast
  have "?p \<in> set (l # A)" by (rule last_in_set) simp
  then have pin: "?p \<in> set (l # A @ R @ B)" by auto
  have "?s \<in> set (B @ [l])" by (rule hd_in_set) simp
  then have sin: "?s \<in> set (l # A @ R @ B)" by auto
  have "\<forall>(l, xs) \<in> set (pre @ post). path h' l (xs @ [l])"
  proof (rule wf_lists_frame [OF ps])
    fix n assume "n \<in> set (nodes_of (pre @ post))"
    with d have "n \<notin> set (l # A @ R @ B)" by auto
    with pin sin have "n \<noteq> ?p" "n \<noteq> ?s" by blast+
    then show "h' n = h n" by (intro node_eqI) (simp_all add: h'(5,6))
  qed
  moreover have "path h' l ((A @ B) @ [l])" using h'(2) by (simp add: clist_def)
  moreover have "distinct (nodes_of (pre @ (l, A @ B) # post))" using d by auto
  ultimately have "wf_lists h' (pre @ (l, A @ B) # post)"
    by (auto simp: wf_lists_def)
  with h' show ?thesis by blast
qed

lemma wf_link:
  assumes w: "wf_lists h (pre @ (l, ys) # post)" and pos: "ys @ [l] = A @ b # B"
    and R: "R \<noteq> []" "path h (hd R) (tl R)" "distinct R"
           "set R \<inter> set (nodes_of (pre @ (l, ys) # post)) = {}" "set R \<subseteq> dom h"
  shows "\<exists>h'. link h b (hd R) (last R) = Some h'
           \<and> wf_lists h' (pre @ (l, insert_run b R ys) # post) \<and> dom h' = dom h
           \<and> get_next h' = (get_next h)(last R \<mapsto> b, last (l # A) \<mapsto> hd R)
           \<and> get_prev h' = (get_prev h)(hd R \<mapsto> last (l # A), b \<mapsto> last R)"
proof -
  let ?als = "pre @ (l, ys) # post"
  let ?p = "last (l # A)"
  from w have d: "distinct (nodes_of ?als)"
    and ps: "\<forall>(l, xs) \<in> set (pre @ post). path h l (xs @ [l])"
    by (auto simp: wf_lists_def)
  have c: "clist h l ys" by (rule wf_lists_clist [OF w]) simp
  then have dy: "distinct (l # ys)" by (simp add: clist_def)
  have Rl: "set R \<inter> set (l # ys) = {}" using R(4) by auto
  from clist_link_run [OF c pos R(1,2,3) Rl R(5)] obtain h' where
    h': "link h b (hd R) (last R) = Some h'" "path h' l (A @ R @ b # B)" "dom h' = dom h"
        "get_next h' = (get_next h)(last R \<mapsto> b, ?p \<mapsto> hd R)"
        "get_prev h' = (get_prev h)(hd R \<mapsto> ?p, b \<mapsto> last R)"
    by blast
  have eq: "set (ys @ [l]) = set (A @ b # B)" by (simp only: pos)
  have "?p \<in> set (l # A)" by (rule last_in_set) simp
  with eq have pin: "?p \<in> set (l # ys)" by auto
  from eq have bin: "b \<in> set (l # ys)" by auto
  have hin: "hd R \<in> set R" "last R \<in> set R" using R(1) by simp_all
  have "\<forall>(l, xs) \<in> set (pre @ post). path h' l (xs @ [l])"
  proof (rule wf_lists_frame [OF ps])
    fix n assume n: "n \<in> set (nodes_of (pre @ post))"
    with d have "n \<notin> set (l # ys)" by auto
    with pin bin have "n \<noteq> ?p" "n \<noteq> b" by blast+
    moreover from n R(4) have "n \<notin> set R" by auto
    with hin have "n \<noteq> hd R" "n \<noteq> last R" by blast+
    ultimately show "h' n = h n" by (intro node_eqI) (simp_all add: h'(4,5))
  qed
  moreover have "path h' l (insert_run b R ys @ [l])"
    using h'(2) by (simp only: insert_run_split [OF pos dy])
  moreover have "distinct (nodes_of (pre @ (l, insert_run b R ys) # post))"
  proof -
    have "distinct (insert_run b R ys)"
      using dy R(3) Rl by (intro distinct_insert_run) auto
    then show ?thesis using d R(4) by (auto simp: set_insert_run)
  qed
  ultimately have "wf_lists h' (pre @ (l, insert_run b R ys) # post)"
    by (auto simp: wf_lists_def)
  with h' show ?thesis by blast
qed


section \<open>One operation\<close>

lemma mem_position:
  assumes "b \<in> set (l # ys)"
  shows "\<exists>A B. ys @ [l] = A @ b # B"
proof -
  from assms have "b \<in> set (ys @ [l])" by auto
  then show ?thesis by (rule split_list)
qed

lemma step_insert:
  assumes w: "wf_lists h (pre @ (l, ys) # post)" and pos: "ys @ [l] = A @ b # B"
    and e: "e \<notin> set (nodes_of (pre @ (l, ys) # post))" "e \<in> dom h"
  shows "\<exists>h'. list_insert h b e = Some h'
           \<and> wf_lists h' (pre @ (l, insert_run b [e] ys) # post) \<and> dom h' = dom h
           \<and> get_next h' = (get_next h)(e \<mapsto> b, last (l # A) \<mapsto> e)
           \<and> get_prev h' = (get_prev h)(e \<mapsto> last (l # A), b \<mapsto> e)"
proof -
  have "set [e] \<inter> set (nodes_of (pre @ (l, ys) # post)) = {}" "set [e] \<subseteq> dom h"
    using e by simp_all
  from wf_link [OF w pos _ _ _ this] have
    "\<exists>h'. link h b (hd [e]) (last [e]) = Some h'
           \<and> wf_lists h' (pre @ (l, insert_run b [e] ys) # post) \<and> dom h' = dom h
           \<and> get_next h' = (get_next h)(last [e] \<mapsto> b, last (l # A) \<mapsto> hd [e])
           \<and> get_prev h' = (get_prev h)(hd [e] \<mapsto> last (l # A), b \<mapsto> last [e])"
    by simp
  then show ?thesis
    unfolding list_insert_link last.simps(1) [of e "[]"] list.sel(1) by simp
qed

lemma step_remove:
  assumes w: "wf_lists h (pre @ (l, A @ e # B) # post)"
  shows "\<exists>h'. list_remove h e = Some (h', hd (B @ [l]))
           \<and> wf_lists h' (pre @ (l, A @ B) # post) \<and> dom h' = dom h
           \<and> get_prev h e = Some (last (l # A)) \<and> get_next h e = Some (hd (B @ [l]))
           \<and> get_next h' = (get_next h)(last (l # A) \<mapsto> hd (B @ [l]))
           \<and> get_prev h' = (get_prev h)(hd (B @ [l]) \<mapsto> last (l # A))"
proof -
  let ?p = "last (l # A)" and ?s = "hd (B @ [l])"
  from w have w': "wf_lists h (pre @ (l, A @ [e] @ B) # post)" by simp
  from wf_unlink [OF w'] obtain h' where
    h': "unlink h e e = Some h'" "wf_lists h' (pre @ (l, A @ B) # post)" "dom h' = dom h"
        "get_next h' = (get_next h)(?p \<mapsto> ?s)" "get_prev h' = (get_prev h)(?s \<mapsto> ?p)"
    by auto
  have c: "clist h l (A @ [e] @ B)" by (rule wf_lists_clist [OF w']) simp
  obtain c0 C where cC: "B @ [l] = c0 # C" by (cases B) auto
  from c have p: "path h l (A @ [e] @ c0 # C)" by (simp add: clist_def cC [symmetric])
  have pe: "get_prev h e = Some ?p" using path_mid(1) [OF p] by simp
  have ne: "get_next h e = Some ?s" using path_mid_next [OF p] cC by simp
  have "?p \<in> set (l # A)" by (rule last_in_set) simp
  moreover have "distinct (l # A @ [e] @ B)" using c by (simp add: clist_def)
  ultimately have "e \<noteq> ?p" by auto
  then have "get_next h' e = Some ?s" using ne by (simp add: h'(4))
  then have "list_remove h e = Some (h', ?s)"
    by (simp add: list_remove_unlink h'(1))
  with h' pe ne show ?thesis by blast
qed

lemma run_split:
  assumes xs: "xs = A @ R @ B" and d: "distinct (l # xs)" and R: "R \<noteq> []"
  shows "hd R \<noteq> hd (B @ [l])"
proof -
  have "hd R \<in> set R" using R by simp
  moreover have "hd (B @ [l]) \<in> set (B @ [l])" by (rule hd_in_set) simp
  ultimately show ?thesis using d xs by auto
qed

lemma step_splice:
  assumes w: "wf_lists h (pre @ (l, A @ R @ B) # post)" and R: "R \<noteq> []"
    and b: "b \<in> set (nodes_of (pre @ (l, A @ R @ B) # post))" "b \<notin> set R"
  shows "\<exists>h'. list_splice h b (hd R) (hd (B @ [l])) = Some h'
           \<and> wf_lists h' (abs_insert b R (pre @ (l, A @ B) # post)) \<and> dom h' = dom h"
proof -
  let ?als = "pre @ (l, A @ R @ B) # post" and ?als1 = "pre @ (l, A @ B) # post"
  let ?s = "hd (B @ [l])"
  have c: "clist h l (A @ R @ B)" by (rule wf_lists_clist [OF w]) simp
  then have dl: "distinct (l # A @ R @ B)" by (simp add: clist_def)
  from w have d: "distinct (nodes_of ?als)" by (simp add: wf_lists_def)
  have ne: "hd R \<noteq> ?s" by (rule run_split [OF refl dl R])
  obtain c0 C where cC: "B @ [l] = c0 # C" by (cases B) auto
  from c have p: "path h l ((A @ R) @ [c0] @ C)" by (simp add: clist_def cC [symmetric])
  have "get_prev h (hd [c0]) = Some (last (l # A @ R))" by (rule path_mid(1) [OF p]) simp
  then have t: "get_prev h ?s = Some (last R)" using R cC by simp
  from wf_unlink [OF w R] obtain h1 where
    h1: "unlink h (hd R) (last R) = Some h1" "wf_lists h1 ?als1"
        "path h1 (hd R) (tl R)" "dom h1 = dom h"
    by blast
  from b d have "b \<in> set (nodes_of ?als1)" by auto
  from nodes_of_memD [OF this] obtain pre1 l1 ys post1 where
    dec: "?als1 = pre1 @ (l1, ys) # post1" and bin: "b \<in> set (l1 # ys)" by blast
  from mem_position [OF bin] obtain A1 B1 where pos: "ys @ [l1] = A1 @ b # B1" by blast
  have w1: "wf_lists h1 (pre1 @ (l1, ys) # post1)" using h1(2) dec by simp
  have Rd: "distinct R" using dl by simp
  have Rn: "set R \<inter> set (nodes_of (pre1 @ (l1, ys) # post1)) = {}"
    unfolding dec [symmetric] using d by auto
  have Rdom: "set R \<subseteq> dom h1" using clist_dom [OF c] h1(4) by auto
  from wf_link [OF w1 pos R h1(3) Rd Rn Rdom] obtain h2 where
    h2: "link h1 b (hd R) (last R) = Some h2"
        "wf_lists h2 (pre1 @ (l1, insert_run b R ys) # post1)" "dom h2 = dom h1"
    by blast
  have d1: "distinct (nodes_of (pre1 @ (l1, ys) # post1))"
    using w1 by (simp add: wf_lists_def)
  have "abs_insert b R ?als1 = pre1 @ (l1, insert_run b R ys) # post1"
    unfolding dec by (rule abs_insert_decomp [OF d1 bin])
  moreover have "list_splice h b (hd R) ?s = Some h2"
    using ne by (simp add: list_splice_unlink_link t h1(1) h2(1))
  ultimately show ?thesis using h2 h1(4) by simp
qed


section \<open>Sequences of operations\<close>

lemma total_size_abs_insert:
  assumes "distinct (nodes_of als)" "b \<in> set (nodes_of als)"
  shows "total_size (abs_insert b R als) = total_size als + length R"
proof -
  from nodes_of_memD [OF assms(2)] obtain pre l ys post where
    dec: "als = pre @ (l, ys) # post" and bin: "b \<in> set (l # ys)" by blast
  have "abs_insert b R als = pre @ (l, insert_run b R ys) # post"
    using assms(1) unfolding dec by (rule abs_insert_decomp [OF _ bin])
  then show ?thesis by (simp add: dec length_insert_run)
qed

lemma splice_run:
  assumes d: "distinct (l # xs)" and f: "f \<in> set xs" and ne: "f \<noteq> la"
    and la: "la = l \<or> la \<in> set (dropWhile (\<lambda>x. x \<noteq> f) xs)"
  defines "R \<equiv> takeWhile (\<lambda>x. x \<noteq> la) (dropWhile (\<lambda>x. x \<noteq> f) xs)"
  shows "\<exists>A B. xs = A @ R @ B \<and> R \<noteq> [] \<and> hd R = f \<and> hd (B @ [l]) = la"
proof -
  let ?D = "dropWhile (\<lambda>x. x \<noteq> f) xs"
  let ?A = "takeWhile (\<lambda>x. x \<noteq> f) xs" and ?B = "dropWhile (\<lambda>x. x \<noteq> la) ?D"
  have xs: "xs = ?A @ R @ ?B" by (simp add: R_def)
  have Dne: "?D \<noteq> []" using f by (auto simp: dropWhile_eq_Nil_conv)
  then have hdD: "hd ?D = f" using hd_dropWhile [of "\<lambda>x. x \<noteq> f" xs] by simp
  obtain D' where D: "?D = f # D'" using Dne hdD by (cases ?D) auto
  have R: "R = f # takeWhile (\<lambda>x. x \<noteq> la) D'" using ne by (simp add: R_def D)
  have "hd (?B @ [l]) = la"
  proof (cases "la \<in> set ?D")
    case True
    then have "?B \<noteq> []" by (auto simp: dropWhile_eq_Nil_conv)
    then show ?thesis using hd_dropWhile [of "\<lambda>x. x \<noteq> la" ?D] by simp
  next
    case False
    with la have "la = l" by simp
    moreover from False have "?B = []" by (auto simp: dropWhile_eq_Nil_conv)
    ultimately show ?thesis by (simp only: append_Nil list.sel)
  qed
  with xs R show ?thesis by (metis list.distinct(1) list.sel(1))
qed

lemma step_op:
  assumes w: "wf_lists h als" and pre: "pre_op (dom h) x als"
  shows "\<exists>h'. exec_op x h = Some h' \<and> wf_lists h' (abs_op x als) \<and> dom h' = dom h
           \<and> total_size (abs_op x als) + removes [x] = total_size als + inserts [x]"
proof (cases x)
  case (Insert b e)
  from pre Insert have b: "b \<in> set (nodes_of als)" and e: "e \<notin> set (nodes_of als)" "e \<in> dom h"
    by simp_all
  from w have d: "distinct (nodes_of als)" by (simp add: wf_lists_def)
  from nodes_of_memD [OF b] obtain pre l ys post where
    dec: "als = pre @ (l, ys) # post" and bin: "b \<in> set (l # ys)" by blast
  from mem_position [OF bin] obtain A B where pos: "ys @ [l] = A @ b # B" by blast
  from step_insert [OF w [unfolded dec] pos e [unfolded dec]] obtain h' where
    h': "list_insert h b e = Some h'" "wf_lists h' (pre @ (l, insert_run b [e] ys) # post)"
        "dom h' = dom h" by blast
  have "abs_insert b [e] als = pre @ (l, insert_run b [e] ys) # post"
    using d unfolding dec by (rule abs_insert_decomp [OF _ bin])
  with h' have "exec_op x h = Some h'" "wf_lists h' (abs_op x als)"
    by (simp_all add: Insert)
  moreover have "total_size (abs_op x als) + removes [x] = total_size als + inserts [x]"
    using total_size_abs_insert [OF d b, of "[e]"] by (simp add: Insert)
  ultimately show ?thesis using h'(3) by blast
next
  case (Remove e)
  from pre Remove obtain l xs where m: "(l, xs) \<in> set als" and e: "e \<in> set xs" by auto
  from m obtain pre post where dec: "als = pre @ (l, xs) # post" by (auto dest: split_list)
  from e obtain A B where xs: "xs = A @ e # B" by (auto dest: split_list)
  from w have d: "distinct (nodes_of (pre @ (l, A @ [e] @ B) # post))"
    by (simp add: wf_lists_def dec xs)
  from step_remove [OF w [unfolded dec xs]] obtain h' where
    h': "list_remove h e = Some (h', hd (B @ [l]))" "wf_lists h' (pre @ (l, A @ B) # post)"
        "dom h' = dom h" by blast
  have "abs_remove [e] als = pre @ (l, A @ B) # post"
    using abs_remove_decomp [OF d] by (simp add: dec xs)
  with h' show ?thesis by (simp add: Remove dec xs)
next
  case (Splice b f la)
  show ?thesis
  proof (cases "f = la")
    case True
    with w show ?thesis by (simp add: Splice list_splice_def)
  next
    case False
    with pre Splice obtain l xs where m: "(l, xs) \<in> set als" and f: "f \<in> set xs"
      and la: "la = l \<or> la \<in> set (dropWhile (\<lambda>x. x \<noteq> f) xs)"
      and b: "b \<in> set (nodes_of als)" "b \<notin> set (run_of f la als)"
      by auto
    from m obtain pre post where dec: "als = pre @ (l, xs) # post" by (auto dest: split_list)
    from w have d: "distinct (nodes_of als)" by (simp add: wf_lists_def)
    then have dl: "distinct (l # xs)" by (simp add: dec)
    let ?R = "takeWhile (\<lambda>x. x \<noteq> la) (dropWhile (\<lambda>x. x \<noteq> f) xs)"
    have run: "run_of f la als = ?R"
      using d f unfolding dec by (rule run_of_decomp)
    from splice_run [OF dl f False la] obtain A B where
      xs: "xs = A @ ?R @ B" and R: "?R \<noteq> []" "hd ?R = f" "hd (B @ [l]) = la" by blast
    have w': "wf_lists h (pre @ (l, A @ ?R @ B) # post)" using w dec xs by simp
    have b': "b \<in> set (nodes_of (pre @ (l, A @ ?R @ B) # post))" "b \<notin> set ?R"
      using b run dec xs by simp_all
    from step_splice [OF w' R(1) b'] obtain h' where
      h': "list_splice h b f la = Some h'"
          "wf_lists h' (abs_insert b ?R (pre @ (l, A @ B) # post))" "dom h' = dom h"
      using R(2,3) by auto
    have d': "distinct (nodes_of (pre @ (l, A @ ?R @ B) # post))" using d dec xs by simp
    have rem: "abs_remove ?R als = pre @ (l, A @ B) # post"
      using abs_remove_decomp [OF d'] dec xs by simp
    have d1: "distinct (nodes_of (pre @ (l, A @ B) # post))" using d' by auto
    have b1: "b \<in> set (nodes_of (pre @ (l, A @ B) # post))" using b' by auto
    have "total_size (abs_insert b ?R (pre @ (l, A @ B) # post))
            = total_size (pre @ (l, A @ B) # post) + length ?R"
      by (rule total_size_abs_insert [OF d1 b1])
    also have "\<dots> = total_size (pre @ (l, A @ ?R @ B) # post)" by simp
    also have "\<dots> = total_size als" using dec xs by simp
    finally show ?thesis using h' False by (simp add: Splice run rem)
  qed
qed

lemma inserts_Cons: "inserts (x # ops) = inserts [x] + inserts ops"
  by (cases x) simp_all

lemma removes_Cons: "removes (x # ops) = removes [x] + removes ops"
  by (cases x) simp_all

lemma steps_ops:
  assumes "wf_lists h als" "pre_ops (dom h) ops als"
  shows "\<exists>h'. exec_ops ops h = Some h' \<and> wf_lists h' (abs_ops ops als) \<and> dom h' = dom h
           \<and> total_size (abs_ops ops als) + removes ops = total_size als + inserts ops"
  using assms
proof (induction ops arbitrary: h als)
  case Nil
  then show ?case by simp
next
  case (Cons x ops)
  from Cons.prems have p1: "pre_op (dom h) x als" and p2: "pre_ops (dom h) ops (abs_op x als)"
    by simp_all
  from step_op [OF Cons.prems(1) p1] obtain h1 where
    h1: "exec_op x h = Some h1" "wf_lists h1 (abs_op x als)" "dom h1 = dom h"
        "total_size (abs_op x als) + removes [x] = total_size als + inserts [x]" by blast
  from p2 h1(3) have "pre_ops (dom h1) ops (abs_op x als)" by simp
  from Cons.IH [OF h1(2) this] obtain h' where
    h': "exec_ops ops h1 = Some h'" "wf_lists h' (abs_ops ops (abs_op x als))" "dom h' = dom h1"
        "total_size (abs_ops ops (abs_op x als)) + removes ops
           = total_size (abs_op x als) + inserts ops" by blast
  have "total_size (abs_ops (x # ops) als) + removes (x # ops)
          = total_size als + inserts (x # ops)"
    using h1(4) h'(4) by (simp add: inserts_Cons [of x ops] removes_Cons [of x ops])
  with h1 h' show ?case by simp
qed


subsection \<open>Every node of a circular list is on the cycle\<close>

lemma follow_path: "path h a xs \<Longrightarrow> follow h (length xs) a = Some (last (a # xs))"
  by (induction xs arbitrary: a) auto

lemma ring_rotate:
  assumes c: "clist h l xs" and n: "n \<in> set (l # xs)"
  shows "\<exists>ys. clist h n ys \<and> length ys = length xs \<and> set (n # ys) = set (l # xs)"
proof (cases "n = l")
  case True
  with c show ?thesis by blast
next
  case False
  with n obtain A B where xs: "xs = A @ n # B" by (auto dest: split_list)
  from c have d: "distinct (l # A @ n # B)" and p: "path h l ((A @ [n]) @ B @ [l])"
    by (simp_all add: clist_def xs)
  from p have p1: "path h l (A @ [n])" and p2: "path h n (B @ [l])"
    unfolding path_append by simp_all
  have "path h n ((B @ [l]) @ (A @ [n]))"
    unfolding path_append [of h n "B @ [l]"] using p1 p2 by simp
  then have "path h n ((B @ l # A) @ [n])" by simp
  moreover have "distinct (n # B @ l # A)" using d by auto
  ultimately have "clist h n (B @ l # A)" by (simp only: clist_def)
  moreover have "length (B @ l # A) = length xs" by (simp add: xs)
  moreover have "set (n # B @ l # A) = set (l # xs)" by (auto simp: xs)
  ultimately show ?thesis by blast
qed

lemma clist_node:
  assumes c: "clist h l xs" and n: "n \<in> set (l # xs)"
  shows "follow h (Suc (length xs)) n = Some n"
    and "\<exists>m. get_next h n = Some m \<and> get_prev h m = Some n \<and> m \<in> set (l # xs)"
    and "\<exists>p. get_prev h n = Some p \<and> get_next h p = Some n \<and> p \<in> set (l # xs)"
proof -
  from ring_rotate [OF c n] obtain ys where
    r: "clist h n ys" "length ys = length xs" "set (n # ys) = set (l # xs)" by blast
  then have p: "path h n (ys @ [n])" by (simp add: clist_def)
  from follow_path [OF p] r(2) show "follow h (Suc (length xs)) n = Some n" by simp
  obtain m ms where ms: "ys @ [n] = m # ms" by (cases ys) auto
  then have "m \<in> set (n # ys)" by (cases ys) auto
  moreover from p have "get_next h n = Some m \<and> get_prev h m = Some n" by (simp add: ms)
  ultimately show "\<exists>m. get_next h n = Some m \<and> get_prev h m = Some n \<and> m \<in> set (l # xs)"
    using r(3) by blast
  have "last (n # ys) \<in> set (n # ys)" by (rule last_in_set) simp
  with path_last_prev [OF p] r(3)
  show "\<exists>p. get_prev h n = Some p \<and> get_next h p = Some n \<and> p \<in> set (l # xs)" by blast
qed

lemma map_fst_abs_op: "map fst (abs_op x als) = map fst als"
  by (cases x) (auto simp: abs_insert_def abs_remove_def)

lemma map_fst_abs_ops: "map fst (abs_ops ops als) = map fst als"
  by (induction ops arbitrary: als) (simp_all add: map_fst_abs_op)

text \<open>
  Claim C1. In a store whose lists are well formed (\<open>wf_lists\<close>), every finite sequence
  of \<^verbatim>\<open>list_insert\<close>, \<^verbatim>\<open>list_remove\<close> and \<^verbatim>\<open>list_splice\<close> calls whose
  preconditions hold when they are reached (\<open>pre_ops\<close>) runs without an invalid access and
  leaves every list a well-formed circular list with the same header: from each node,
  following \<^verbatim>\<open>next\<close> as many times as the list has nodes leads back to that node,
  \<^verbatim>\<open>prev\<close> is the inverse of \<^verbatim>\<open>next\<close>, and \<^verbatim>\<open>list_size\<close> returns the number of
  elements, without wrapping. The sizes add up to the sizes before, plus the number of
  inserts, minus the number of removes (a splice moves elements and changes no total); for
  a store with one list, that list's size is its size before plus the nodes net-inserted.
\<close>

theorem list_ops_keep_circular:
  assumes "wf_lists h als" and "pre_ops (dom h) ops als"
  shows "\<exists>h'. exec_ops ops h = Some h' \<and> wf_lists h' (abs_ops ops als)
           \<and> map fst (abs_ops ops als) = map fst als
           \<and> (\<forall>(l, xs) \<in> set (abs_ops ops als).
                 clist h' l xs \<and> list_size h' l = Some (of_nat (length xs))
                 \<and> length xs < 2 ^ 64
                 \<and> (\<forall>n \<in> set (l # xs).
                       follow h' (Suc (length xs)) n = Some n
                       \<and> (\<exists>m. get_next h' n = Some m \<and> get_prev h' m = Some n)
                       \<and> (\<exists>p. get_prev h' n = Some p \<and> get_next h' p = Some n)))
           \<and> total_size (abs_ops ops als) + removes ops = total_size als + inserts ops
           \<and> (\<forall>l xs. als = [(l, xs)] \<longrightarrow>
                 (\<exists>n. list_size h' l = Some n \<and> unat n + removes ops = length xs + inserts ops))"
proof -
  from steps_ops [OF assms] obtain h' where
    h': "exec_ops ops h = Some h'" "wf_lists h' (abs_ops ops als)"
        "total_size (abs_ops ops als) + removes ops = total_size als + inserts ops" by blast
  have each: "\<forall>(l, xs) \<in> set (abs_ops ops als).
                 clist h' l xs \<and> list_size h' l = Some (of_nat (length xs))
                 \<and> length xs < 2 ^ 64
                 \<and> (\<forall>n \<in> set (l # xs).
                       follow h' (Suc (length xs)) n = Some n
                       \<and> (\<exists>m. get_next h' n = Some m \<and> get_prev h' m = Some n)
                       \<and> (\<exists>p. get_prev h' n = Some p \<and> get_next h' p = Some n))"
  proof (clarify)
    fix l xs assume "(l, xs) \<in> set (abs_ops ops als)"
    with h'(2) have c: "clist h' l xs" by (rule wf_lists_clist)
    have "\<forall>n \<in> set (l # xs).
            follow h' (Suc (length xs)) n = Some n
            \<and> (\<exists>m. get_next h' n = Some m \<and> get_prev h' m = Some n)
            \<and> (\<exists>p. get_prev h' n = Some p \<and> get_next h' p = Some n)"
      using clist_node [OF c] by blast
    with c clist_size [OF c] clist_length [OF c]
    show "clist h' l xs \<and> list_size h' l = Some (of_nat (length xs))
            \<and> length xs < 2 ^ 64
            \<and> (\<forall>n \<in> set (l # xs).
                  follow h' (Suc (length xs)) n = Some n
                  \<and> (\<exists>m. get_next h' n = Some m \<and> get_prev h' m = Some n)
                  \<and> (\<exists>p. get_prev h' n = Some p \<and> get_next h' p = Some n))"
      by blast
  qed
  have one: "\<forall>l xs. als = [(l, xs)] \<longrightarrow>
               (\<exists>n. list_size h' l = Some n \<and> unat n + removes ops = length xs + inserts ops)"
  proof (intro allI impI)
    fix l xs assume a: "als = [(l, xs)]"
    have "map fst (abs_ops ops als) = [l]" by (simp add: map_fst_abs_ops a)
    then obtain xs' where r: "abs_ops ops als = [(l, xs')]" by auto
    with h'(2) have c: "clist h' l xs'" by (auto intro: wf_lists_clist)
    have u: "unat (of_nat (length xs') :: 64 word) = length xs'"
      using clist_length [OF c] by (rule unat_of_nat_length)
    have "total_size (abs_ops ops als) = length xs'"
      by (subst r) (simp add: total_size_def)
    moreover have "total_size als = length xs"
      by (subst a) (simp add: total_size_def)
    ultimately have "length xs' + removes ops = length xs + inserts ops"
      using h'(3) by simp
    then show "\<exists>n. list_size h' l = Some n \<and> unat n + removes ops = length xs + inserts ops"
      using clist_size [OF c] u by simp
  qed
  from h' each one map_fst_abs_ops [of ops als] show ?thesis by blast
qed


lemma h_ops_wf: "wf_lists h_ops [(1, []), (5, [])]"
  by (simp add: wf_lists_def h_ops_def get_next_def get_prev_def)

lemma h_ops_wf_one: "wf_lists h_ops [(1, [])]"
  by (simp add: wf_lists_def h_ops_def get_next_def get_prev_def)

lemma h_ops_dom: "dom h_ops = {1, 2, 3, 4, 5}"
  by (auto simp: h_ops_def)

lemma ops_two_abs: "abs_ops ops_two [(1, []), (5, [])] = [(1, [4]), (5, [2])]"
  by (simp add: ops_two_def abs_insert_def abs_remove_def run_of_def)

lemma ops_two_pre: "pre_ops (dom h_ops) ops_two [(1, []), (5, [])]"
  by (simp add: h_ops_dom ops_two_def abs_insert_def abs_remove_def run_of_def)

lemma ops_one_abs: "abs_ops ops_one [(1, [])] = [(1, [3, 4])]"
  by (simp add: ops_one_def abs_insert_def abs_remove_def run_of_def)

lemma ops_one_pre: "pre_ops (dom h_ops) ops_one [(1, [])]"
  by (simp add: h_ops_dom ops_one_def abs_insert_def abs_remove_def run_of_def)

theorem list_ops_keep_circular_witness:
  "wf_lists h_ops [(1, []), (5, [])] \<and> pre_ops (dom h_ops) ops_two [(1, []), (5, [])]
   \<and> (\<exists>h'. exec_ops ops_two h_ops = Some h' \<and> clist h' 1 [4] \<and> clist h' 5 [2]
          \<and> list_size h' 1 = Some 1 \<and> list_size h' 5 = Some 1
          \<and> follow h' (Suc (Suc 0)) 4 = Some 4 \<and> follow h' (Suc (Suc 0)) 2 = Some 2)
   \<and> wf_lists h_ops [(1, [])] \<and> pre_ops (dom h_ops) ops_one [(1, [])]
   \<and> (\<exists>h' n. exec_ops ops_one h_ops = Some h' \<and> clist h' 1 [3, 4]
          \<and> list_size h' 1 = Some n \<and> unat n + 1 = 0 + 3)"
proof -
  from list_ops_keep_circular [OF h_ops_wf ops_two_pre] obtain h2 where
    e2: "exec_ops ops_two h_ops = Some h2"
    and a2: "\<forall>(l, xs) \<in> set [(1, [4]), (5, [2 :: addr])].
               clist h2 l xs \<and> list_size h2 l = Some (of_nat (length xs))
               \<and> length xs < 2 ^ 64
               \<and> (\<forall>n \<in> set (l # xs).
                     follow h2 (Suc (length xs)) n = Some n
                     \<and> (\<exists>m. get_next h2 n = Some m \<and> get_prev h2 m = Some n)
                     \<and> (\<exists>p. get_prev h2 n = Some p \<and> get_next h2 p = Some n))"
    unfolding ops_two_abs by blast
  from a2 have two: "clist h2 1 [4] \<and> clist h2 5 [2] \<and> list_size h2 1 = Some 1
      \<and> list_size h2 5 = Some 1
      \<and> follow h2 (Suc (Suc 0)) 4 = Some 4 \<and> follow h2 (Suc (Suc 0)) 2 = Some 2"
    by simp
  from list_ops_keep_circular [OF h_ops_wf_one ops_one_pre] obtain h1 where
    e1: "exec_ops ops_one h_ops = Some h1"
    and w1: "wf_lists h1 [(1, [3, 4])]"
    and s1: "\<forall>l (xs :: addr list). [(1, [])] = [(l, xs)] \<longrightarrow>
               (\<exists>n. list_size h1 l = Some n
                    \<and> unat n + removes ops_one = length xs + inserts ops_one)"
    unfolding ops_one_abs by blast
  from s1 obtain n where n: "list_size h1 1 = Some n" "unat n + removes ops_one = 0 + inserts ops_one"
    by auto
  have "removes ops_one = 1" "inserts ops_one = 3" by (simp_all add: ops_one_def)
  with n have one: "list_size h1 1 = Some n \<and> unat n + 1 = 0 + 3" by simp
  have c1: "clist h1 1 [3, 4]" using w1 by (auto intro: wf_lists_clist)
  from e2 two e1 c1 one h_ops_wf ops_two_pre h_ops_wf_one ops_one_pre
  show ?thesis by blast
qed


section \<open>Removal, and insertion into another list\<close>

lemma wf_lists_single: "wf_lists h [(l, xs)] = clist h l xs"
  by (simp add: wf_lists_def clist_def)

lemma wf_lists_pair:
  "wf_lists h [(la, xs), (lb, ys)] =
     (clist h la xs \<and> clist h lb ys \<and> set (la # xs) \<inter> set (lb # ys) = {})"
  by (auto simp: wf_lists_def clist_def)

lemma remove1_split: "node \<notin> set A \<Longrightarrow> remove1 node (A @ node # B) = A @ B"
  by (induction A) auto

text \<open>
  Claim C2. For a node that is an element of a well-formed circular list,
  \<^verbatim>\<open>list_remove\<close> returns the node's successor before the call; afterwards the header
  heads a well-formed circular list of the former elements without the node, in their
  order, and the node's former predecessor and successor reference each other. No other
  node is written: the store differs at most at the predecessor and the successor.
\<close>

theorem list_remove_member:
  assumes "clist h l xs" and "node \<in> set xs"
  shows "\<exists>h' p s. get_prev h node = Some p \<and> get_next h node = Some s
           \<and> list_remove h node = Some (h', s)
           \<and> clist h' l (remove1 node xs) \<and> set (remove1 node xs) = set xs - {node}
           \<and> get_next h' p = Some s \<and> get_prev h' s = Some p
           \<and> (\<forall>n. n \<noteq> p \<and> n \<noteq> s \<longrightarrow> h' n = h n)"
proof -
  from assms(2) obtain A B where xs: "xs = A @ node # B" by (auto dest: split_list)
  from assms(1) have d: "distinct (l # A @ node # B)" by (simp add: clist_def xs)
  let ?p = "last (l # A)" and ?s = "hd (B @ [l])"
  from assms(1) have "wf_lists h ([] @ (l, A @ node # B) # [])"
    by (simp add: wf_lists_single xs)
  from step_remove [OF this] obtain h' where
    h': "list_remove h node = Some (h', ?s)" "wf_lists h' ([] @ (l, A @ B) # [])"
        "get_prev h node = Some ?p" "get_next h node = Some ?s"
        "get_next h' = (get_next h)(?p \<mapsto> ?s)" "get_prev h' = (get_prev h)(?s \<mapsto> ?p)"
    by blast
  have r: "remove1 node xs = A @ B" using d by (simp add: xs remove1_split)
  have c: "clist h' l (remove1 node xs)" using h'(2) by (simp add: wf_lists_single r)
  have s: "set (remove1 node xs) = set xs - {node}" using d by (auto simp: r xs)
  have f: "\<forall>n. n \<noteq> ?p \<and> n \<noteq> ?s \<longrightarrow> h' n = h n"
    by (intro allI impI node_eqI) (simp_all add: h'(5,6))
  have "get_next h' ?p = Some ?s" "get_prev h' ?s = Some ?p" by (simp_all add: h'(5,6))
  with h' c s f show ?thesis by blast
qed

theorem list_remove_member_witness:
  "clist hw 1 [2, 3] \<and> (2 :: addr) \<in> set [2, 3]
   \<and> (\<exists>h'. list_remove hw 2 = Some (h', 3) \<and> clist h' 1 [3]
          \<and> get_next h' 1 = Some 3 \<and> get_prev h' 3 = Some 1)"
proof -
  have m: "(2 :: addr) \<in> set [2, 3]" by simp
  from list_remove_member [OF hw_clist m] obtain h' p s where
    h': "get_prev hw 2 = Some p" "get_next hw 2 = Some s"
        "list_remove hw 2 = Some (h', s)" "clist h' 1 (remove1 2 [2, 3])"
        "get_next h' p = Some s" "get_prev h' s = Some p" by blast
  from h'(1,2) have "p = 1" "s = 3" by (simp_all add: hw_def get_prev_def get_next_def)
  with h' hw_clist m show ?thesis by auto
qed

text \<open>
  Claim C9. Let A and B be two different well-formed lists of one store (they share no
  node), \<open>node\<close> an element of A and \<open>before\<close> a node of B. Then \<^verbatim>\<open>list_remove\<close> of
  the node followed by \<^verbatim>\<open>list_insert\<close> of the same node before \<open>before\<close> both
  succeed; A is a well-formed circular list of its remaining elements in their order after
  each of the two calls, the insertion writes no node of A, and B receives the node.
\<close>

theorem remove_then_insert_elsewhere:
  assumes "clist h la xs" and "clist h lb ys" and "set (la # xs) \<inter> set (lb # ys) = {}"
    and "node \<in> set xs" and "before \<in> set (lb # ys)"
  shows "\<exists>h1 s h2. list_remove h node = Some (h1, s) \<and> list_insert h1 before node = Some h2
           \<and> clist h1 la (remove1 node xs) \<and> clist h2 la (remove1 node xs)
           \<and> (\<forall>n \<in> set (la # remove1 node xs). h2 n = h1 n)
           \<and> clist h2 lb (insert_run before [node] ys)"
proof -
  from assms(4) obtain A B where xs: "xs = A @ node # B" by (auto dest: split_list)
  from assms(1) have d: "distinct (la # A @ node # B)" by (simp add: clist_def xs)
  have r: "remove1 node xs = A @ B" using d by (simp add: xs remove1_split)
  from assms(1,2,3) have "wf_lists h ([] @ (la, A @ node # B) # [(lb, ys)])"
    by (simp add: wf_lists_pair xs)
  from step_remove [OF this] obtain h1 where
    h1: "list_remove h node = Some (h1, hd (B @ [la]))"
        "wf_lists h1 ([] @ (la, A @ B) # [(lb, ys)])" "dom h1 = dom h"
    by blast
  then have w1: "wf_lists h1 ([(la, A @ B)] @ (lb, ys) # [])" by simp
  from mem_position [OF assms(5)] obtain A1 B1 where pos: "ys @ [lb] = A1 @ before # B1"
    by blast
  have nd: "node \<in> dom h1" using clist_dom [OF assms(1)] assms(4) h1(3) by auto
  have nn: "node \<notin> set (nodes_of ([(la, A @ B)] @ (lb, ys) # []))"
    using d assms(3,4) by auto
  let ?bp = "last (lb # A1)"
  from step_insert [OF w1 pos nn nd] obtain h2 where
    h2: "list_insert h1 before node = Some h2"
        "wf_lists h2 ([(la, A @ B)] @ (lb, insert_run before [node] ys) # [])"
        "get_next h2 = (get_next h1)(node \<mapsto> before, ?bp \<mapsto> node)"
        "get_prev h2 = (get_prev h1)(node \<mapsto> ?bp, before \<mapsto> node)"
    by blast
  have "?bp \<in> set (lb # A1)" by (rule last_in_set) simp
  moreover have "set (ys @ [lb]) = set (A1 @ before # B1)" by (simp only: pos)
  ultimately have bpin: "?bp \<in> set (lb # ys)" by auto
  have frame: "\<forall>n \<in> set (la # remove1 node xs). h2 n = h1 n"
  proof
    fix n assume "n \<in> set (la # remove1 node xs)"
    then have n: "n \<in> set (la # xs)" "n \<noteq> node" using d by (auto simp: r xs)
    with assms(3,5) bpin have "n \<noteq> before" "n \<noteq> ?bp" by blast+
    with n(2) show "h2 n = h1 n" by (intro node_eqI) (simp_all add: h2(3,4))
  qed
  have "clist h1 la (A @ B)" by (rule wf_lists_clist [OF h1(2)]) simp
  moreover have "clist h2 la (A @ B)" by (rule wf_lists_clist [OF h2(2)]) simp
  moreover have "clist h2 lb (insert_run before [node] ys)"
    by (rule wf_lists_clist [OF h2(2)]) simp
  ultimately show ?thesis using h1(1) h2(1) frame r by auto
qed

lemma h_two_wf: "wf_lists h_two [(1, [2, 3]), (5, [6])]"
  by (simp add: wf_lists_def h_two_def get_next_def get_prev_def)

theorem remove_then_insert_elsewhere_witness:
  "clist h_two 1 [2, 3] \<and> clist h_two 5 [6] \<and> set [1, 2, 3 :: addr] \<inter> set [5, 6] = {}
   \<and> (2 :: addr) \<in> set [2, 3] \<and> (5 :: addr) \<in> set [5, 6]
   \<and> (\<exists>h1 s h2. list_remove h_two 2 = Some (h1, s) \<and> list_insert h1 5 2 = Some h2
          \<and> clist h1 1 [3] \<and> clist h2 1 [3] \<and> h2 1 = h1 1 \<and> h2 3 = h1 3
          \<and> clist h2 5 [6, 2])"
proof -
  have a: "clist h_two 1 [2, 3]" "clist h_two 5 [6]" "set (1 # [2, 3 :: addr]) \<inter> set (5 # [6]) = {}"
    using h_two_wf by (simp_all add: wf_lists_pair)
  have m: "(2 :: addr) \<in> set [2, 3]" "(5 :: addr) \<in> set (5 # [6])" by simp_all
  from remove_then_insert_elsewhere [OF a m] obtain h1 s h2 where
    "list_remove h_two 2 = Some (h1, s)" "list_insert h1 5 2 = Some h2"
    "clist h1 1 (remove1 2 [2, 3])" "clist h2 1 (remove1 2 [2, 3])"
    "\<forall>n \<in> set (1 # remove1 2 [2, 3 :: addr]). h2 n = h1 n"
    "clist h2 5 (insert_run 5 [2] [6])" by blast
  then have "list_remove h_two 2 = Some (h1, s) \<and> list_insert h1 5 2 = Some h2
          \<and> clist h1 1 [3] \<and> clist h2 1 [3] \<and> h2 1 = h1 1 \<and> h2 3 = h1 3
          \<and> clist h2 5 [6, 2]" by simp
  with a m show ?thesis by auto
qed


section \<open>Splicing\<close>

lemma insert_run_Nil: "insert_run b [] xs = xs"
  by (induction xs) auto

lemma list_size_loop_stuck:
  assumes "get_next h e = Some e" and "e \<noteq> l"
  shows "list_size_loop h l e cnt = None"
proof (rule ccontr)
  assume "list_size_loop h l e cnt \<noteq> None"
  then obtain y where y: "list_size_loop h l e cnt = Some y" by auto
  have "\<not> (h = h \<and> l = l \<and> e = e)"
  proof (rule list_size_loop.raw_induct
      [where P = "\<lambda>h' l' e' c y. \<not> (h' = h \<and> l' = l \<and> e' = e)", OF _ y])
    fix f h' l' e' c r
    assume IH: "\<And>h'' l'' e'' c' r'. f h'' l'' e'' c' = Some r' \<Longrightarrow>
                  \<not> (h'' = h \<and> l'' = l \<and> e'' = e)"
      and body: "(if e' = l' then Some c
                  else get_next h' e' \<bind> (\<lambda>e''. f h' l' e'' (c + 1))) = Some r"
    show "\<not> (h' = h \<and> l' = l \<and> e' = e)"
    proof
      assume "h' = h \<and> l' = l \<and> e' = e"
      with body assms have "f h l e (c + 1) = Some r" by simp
      from IH [OF this] show False by simp
    qed
  qed
  then show False by simp
qed

text \<open>
  Claim C3, as stated, fails when the source and the destination are the same list and
  \<open>before\<close> lies inside the range. In \<open>hw\<close> (header 1, elements 2 and 3) the range
  from 2 to 3 is the run of the single element 2; splicing it before node 2 gives the
  store \<open>h_self\<close>: node 2 references itself, the traversal from the header 1 enters node 2
  and never comes back, and \<^verbatim>\<open>list_size\<close> has no result.
\<close>

theorem list_splice_before_in_range_counterexample:
  "clist hw 1 [2, 3] \<and> list_splice hw 2 2 3 = Some h_self
   \<and> get_next h_self 1 = Some 2 \<and> get_next h_self 2 = Some 2 \<and> list_size h_self 1 = None"
proof -
  have s: "list_splice hw 2 2 3 = Some h_self"
    by (simp add: list_splice_def hw_def h_self_def get_prev_def get_next_def
        set_next_def set_prev_def fun_upd_twist)
  have n: "get_next h_self 1 = Some 2" "get_next h_self 2 = Some 2"
    by (simp_all add: h_self_def get_next_def)
  have "list_size_loop h_self 1 2 0 = None"
    by (rule list_size_loop_stuck [OF n(2)]) simp
  then have "list_size h_self 1 = None" by (simp add: list_size_def n(1))
  with s n hw_clist show ?thesis by simp
qed

text \<open>
  Claim C3, amended: \<open>before\<close> is a node of the destination list that is not in the
  range. The source list is \<open>A @ R @ B\<close> with the run \<open>R\<close>, so that \<open>first\<close> is the head
  of \<open>R\<close> and \<open>last\<close> the node after it (the header, if \<open>B\<close> is empty); the destination
  is the same list or a list that shares no node with the source. Then
  \<^verbatim>\<open>list_splice\<close> succeeds; for two lists, the source becomes \<open>A @ B\<close> and the
  destination has \<open>R\<close>, in order, before \<open>before\<close>; for one list, \<open>R\<close> moves before
  \<open>before\<close> in \<open>A @ B\<close>; both are well-formed circular lists. With an empty range
  (\<open>first = last\<close>) the store is unchanged.
\<close>

theorem list_splice_moves_run:
  assumes src: "clist h ls (A @ R @ B)" and dst: "clist h ld ys"
    and rel: "(ld = ls \<and> ys = A @ R @ B) \<or> set (ls # A @ R @ B) \<inter> set (ld # ys) = {}"
    and b: "before \<in> set (ld # ys)" "before \<notin> set R"
  shows "\<exists>h'. list_splice h before (hd (R @ B @ [ls])) (hd (B @ [ls])) = Some h'
           \<and> (R = [] \<longrightarrow> h' = h)
           \<and> (ld \<noteq> ls \<longrightarrow> clist h' ls (A @ B) \<and> clist h' ld (insert_run before R ys))
           \<and> (ld = ls \<longrightarrow> clist h' ls (insert_run before R (A @ B)))"
proof (cases "R = []")
  case True
  have "list_splice h before (hd (R @ B @ [ls])) (hd (B @ [ls])) = Some h"
    by (simp add: True list_splice_def)
  moreover have "ld = ls \<longrightarrow> ys = A @ B" using rel True by auto
  ultimately show ?thesis using src dst True by (auto simp: insert_run_Nil)
next
  case False
  then have hdR: "hd (R @ B @ [ls]) = hd R" by simp
  show ?thesis
  proof (cases "ld = ls")
    case True
    with rel have ys: "ys = A @ R @ B" by auto
    have w: "wf_lists h ([] @ (ls, A @ R @ B) # [])" using src by (simp add: wf_lists_single)
    have b': "before \<in> set (nodes_of ([] @ (ls, A @ R @ B) # []))"
      using b(1) True ys by simp
    from step_splice [OF w False b' b(2)] obtain h' where
      h': "list_splice h before (hd R) (hd (B @ [ls])) = Some h'"
          "wf_lists h' (abs_insert before R ([] @ (ls, A @ B) # []))" by blast
    have "before \<in> set (ls # A @ B)" using b True ys by auto
    then have "abs_insert before R [(ls, A @ B)] = [(ls, insert_run before R (A @ B))]"
      by (simp add: abs_insert_def)
    with h'(2) have "clist h' ls (insert_run before R (A @ B))"
      by (simp add: wf_lists_single)
    with h'(1) True False hdR show ?thesis by simp
  next
    case ne: False
    with rel have dis: "set (ls # A @ R @ B) \<inter> set (ld # ys) = {}" by auto
    have w: "wf_lists h ([] @ (ls, A @ R @ B) # [(ld, ys)])"
      using src dst dis by (simp add: wf_lists_pair)
    have b': "before \<in> set (nodes_of ([] @ (ls, A @ R @ B) # [(ld, ys)]))"
      using b(1) by auto
    from step_splice [OF w False b' b(2)] obtain h' where
      h': "list_splice h before (hd R) (hd (B @ [ls])) = Some h'"
          "wf_lists h' (abs_insert before R ([] @ (ls, A @ B) # [(ld, ys)]))" by blast
    have "before \<notin> set (ls # A @ B)" using b(1) dis by auto
    then have "abs_insert before R [(ls, A @ B), (ld, ys)]
                 = [(ls, A @ B), (ld, insert_run before R ys)]"
      using b(1) by (simp add: abs_insert_def)
    with h'(2) have "clist h' ls (A @ B) \<and> clist h' ld (insert_run before R ys)"
      by (simp add: wf_lists_pair)
    with h'(1) ne False hdR show ?thesis by simp
  qed
qed

theorem list_splice_moves_run_witness:
  "clist h_two 1 ([] @ [2, 3] @ []) \<and> clist h_two 5 [6]
   \<and> set (1 # [] @ [2, 3 :: addr] @ []) \<inter> set (5 # [6]) = {}
   \<and> (6 :: addr) \<in> set (5 # [6]) \<and> (6 :: addr) \<notin> set [2, 3]
   \<and> (\<exists>h'. list_splice h_two 6 2 1 = Some h' \<and> clist h' 1 [] \<and> clist h' 5 [2, 3, 6])
   \<and> clist hw 1 ([2] @ [3] @ []) \<and> (2 :: addr) \<in> set (1 # [2, 3]) \<and> (2 :: addr) \<notin> set [3]
   \<and> (\<exists>h'. list_splice hw 2 3 1 = Some h' \<and> clist h' 1 [3, 2])
   \<and> clist hw 1 ([] @ [] @ [2, 3]) \<and> (3 :: addr) \<in> set (1 # [2, 3]) \<and> (3 :: addr) \<notin> set []
   \<and> list_splice hw 3 2 2 = Some hw"
proof -
  have a: "clist h_two 1 ([] @ [2, 3] @ [])" "clist h_two 5 [6]"
    "(5 = (1 :: addr) \<and> [6] = [] @ [2, 3 :: addr] @ [])
       \<or> set (1 # [] @ [2, 3 :: addr] @ []) \<inter> set (5 # [6]) = {}"
    "(6 :: addr) \<in> set (5 # [6])" "(6 :: addr) \<notin> set [2, 3]"
    using h_two_wf by (simp_all add: wf_lists_pair)
  from list_splice_moves_run [OF a] have
    1: "\<exists>h'. list_splice h_two 6 2 1 = Some h' \<and> clist h' 1 [] \<and> clist h' 5 [2, 3, 6]"
    by simp
  have c: "clist hw 1 ([2] @ [3] @ [])" "clist hw 1 [2, 3]"
    "(1 = (1 :: addr) \<and> [2, 3] = [2] @ [3 :: addr] @ [])
       \<or> set (1 # [2] @ [3 :: addr] @ []) \<inter> set (1 # [2, 3]) = {}"
    "(2 :: addr) \<in> set (1 # [2, 3])" "(2 :: addr) \<notin> set [3]"
    using hw_clist by simp_all
  from list_splice_moves_run [OF c] have
    2: "\<exists>h'. list_splice hw 2 3 1 = Some h' \<and> clist h' 1 [3, 2]"
    by simp
  have e: "clist hw 1 ([] @ [] @ [2, 3])" "clist hw 1 [2, 3]"
    "(1 = (1 :: addr) \<and> [2, 3] = [] @ [] @ [2, 3 :: addr])
       \<or> set (1 # [] @ [] @ [2, 3 :: addr]) \<inter> set (1 # [2, 3]) = {}"
    "(3 :: addr) \<in> set (1 # [2, 3])" "(3 :: addr) \<notin> set []"
    using hw_clist by simp_all
  from list_splice_moves_run [OF e] have 3: "list_splice hw 3 2 2 = Some hw"
    by simp
  from 1 2 3 a c show ?thesis by simp
qed


section \<open>Membership of nodes, and the removed node\<close>

lemma nodes_of_unique:
  assumes "distinct (nodes_of als)" "e1 \<in> set als" "e2 \<in> set als"
    and "n \<in> set (fst e1 # snd e1)" "n \<in> set (fst e2 # snd e2)"
  shows "e1 = e2"
  using assms
proof (induction als)
  case Nil
  then show ?case by simp
next
  case (Cons a als)
  obtain l xs where a: "a = (l, xs)" by (cases a)
  from Cons.prems(1) have d: "distinct (nodes_of als)"
    and dis: "set (l # xs) \<inter> set (nodes_of als) = {}" by (auto simp: a)
  have rest: "n \<in> set (nodes_of als)" if "e \<in> set als" "n \<in> set (fst e # snd e)" for e
    using nodes_of_mem [of "fst e" "snd e" als] that by auto
  show ?case
  proof (cases "e1 = a")
    case e1: True
    show ?thesis
    proof (cases "e2 = a")
      case True
      with e1 show ?thesis by simp
    next
      case False
      with Cons.prems(3) have "e2 \<in> set als" by simp
      from rest [OF this Cons.prems(5)] dis Cons.prems(4) e1 a show ?thesis by auto
    qed
  next
    case n1: False
    with Cons.prems(2) have m1: "e1 \<in> set als" by simp
    show ?thesis
    proof (cases "e2 = a")
      case True
      from rest [OF m1 Cons.prems(4)] dis Cons.prems(5) True a show ?thesis by auto
    next
      case False
      with Cons.prems(3) have "e2 \<in> set als" by simp
      from Cons.IH [OF d m1 this Cons.prems(4,5)] show ?thesis .
    qed
  qed
qed

lemma member_linked:
  assumes "clist h l xs" "n \<in> set (l # xs)"
  shows "is_linked h n"
proof -
  from clist_node(2,3) [OF assms] obtain m p where
    "get_next h n = Some m" "get_prev h m = Some n"
    "get_prev h n = Some p" "get_next h p = Some n" by blast
  then show ?thesis
    by (cases "h n") (auto simp: is_linked_def get_next_def get_prev_def)
qed

lemma clist_solitary:
  assumes "clist h l xs"
  shows "is_solitary h l \<longleftrightarrow> xs = []"
proof
  assume "is_solitary h l"
  then have "get_next h l = Some l" by (simp add: is_solitary_def get_next_def)
  with clist_next_head [OF assms] have "hd (xs @ [l]) = l" by simp
  moreover have "distinct (l # xs)" using assms by (simp add: clist_def)
  ultimately show "xs = []" by (cases xs) auto
next
  assume "xs = []"
  with assms have "get_next h l = Some l" "get_prev h l = Some l" by (simp_all add: clist_def)
  then show "is_solitary h l"
    by (cases "h l") (auto simp: is_solitary_def get_next_def get_prev_def)
qed

lemma list_init_solitary:
  assumes "a \<in> dom h"
  shows "\<exists>h0. list_init h a = Some h0 \<and> is_solitary h0 a \<and> clist h0 a []"
proof -
  from assms obtain nd where "h a = Some nd" by auto
  then show ?thesis
    by (simp add: list_init_def set_prev_def set_next_def is_solitary_def clist_def
        get_next_def get_prev_def)
qed

text \<open>
  Claim C4, as stated, fails for the node that \<^verbatim>\<open>list_remove\<close> has removed.
  Removing the element 2 from \<open>hw\<close> gives \<open>h_removed\<close>: node 2 still holds the addresses
  of its former neighbours 1 and 3, so it does not reference itself, and it is on no
  circular list, since its successor's \<^verbatim>\<open>prev\<close> is not node 2 (every member of a
  circular list is \<open>is_linked\<close>, lemma \<open>member_linked\<close>).
\<close>

theorem removed_node_counterexample:
  "clist hw 1 [2, 3] \<and> list_remove hw 2 = Some (h_removed, 3)
   \<and> h_removed 2 = Some \<lparr>prev = 1, next = 3\<rparr> \<and> get_prev h_removed 3 = Some 1
   \<and> \<not> is_solitary h_removed 2 \<and> \<not> is_linked h_removed 2"
proof -
  have "list_remove hw 2 = Some (h_removed, 3)"
    by (simp add: list_remove_def hw_def h_removed_def get_prev_def get_next_def
        set_next_def set_prev_def fun_upd_twist)
  moreover have "h_removed 2 = Some \<lparr>prev = 1, next = 3\<rparr>" "get_prev h_removed 3 = Some 1"
    "\<not> is_solitary h_removed 2" "\<not> is_linked h_removed 2"
    by (simp_all add: h_removed_def is_solitary_def is_linked_def get_prev_def get_next_def)
  ultimately show ?thesis using hw_clist by simp
qed

text \<open>
  Claim C4, amended. In a store of well-formed lists every node of a list is linked (its
  neighbours reference it back) and is a node of exactly one list; a header is solitary and
  self-referencing exactly if its list is empty, and \<^verbatim>\<open>list_init\<close> makes such a
  header. After \<^verbatim>\<open>list_remove\<close> of an element the lists are well formed again, the
  former predecessor and successor reference each other, the node is in no list and no
  node of a list references it. The node itself is not written: it keeps the addresses of
  its former neighbours, and so it is neither linked nor self-referencing (until
  \<^verbatim>\<open>list_init\<close> or an insertion writes it).
\<close>

theorem linked_nodes_and_removal:
  assumes "wf_lists h als" and "(l, xs) \<in> set als" and "node \<in> set xs"
  shows "(\<forall>n \<in> set (nodes_of als). is_linked h n
            \<and> (\<forall>e1 \<in> set als. \<forall>e2 \<in> set als.
                  n \<in> set (fst e1 # snd e1) \<and> n \<in> set (fst e2 # snd e2) \<longrightarrow> e1 = e2))
         \<and> (\<forall>(l', xs') \<in> set als. is_solitary h l' \<longleftrightarrow> xs' = [])
         \<and> (\<forall>a \<in> dom h. \<exists>h0. list_init h a = Some h0 \<and> is_solitary h0 a \<and> clist h0 a [])
         \<and> (\<exists>h' p s. list_remove h node = Some (h', s)
               \<and> get_prev h node = Some p \<and> get_next h node = Some s
               \<and> wf_lists h' (abs_remove [node] als)
               \<and> get_next h' p = Some s \<and> get_prev h' s = Some p
               \<and> node \<notin> set (nodes_of (abs_remove [node] als))
               \<and> (\<forall>n \<in> set (nodes_of (abs_remove [node] als)).
                     get_next h' n \<noteq> Some node \<and> get_prev h' n \<noteq> Some node)
               \<and> h' node = h node \<and> \<not> is_linked h' node \<and> \<not> is_solitary h' node)"
proof (intro conjI)
  from assms(1) have d: "distinct (nodes_of als)" by (simp add: wf_lists_def)
  show "\<forall>n \<in> set (nodes_of als). is_linked h n
            \<and> (\<forall>e1 \<in> set als. \<forall>e2 \<in> set als.
                  n \<in> set (fst e1 # snd e1) \<and> n \<in> set (fst e2 # snd e2) \<longrightarrow> e1 = e2)"
  proof (intro ballI conjI impI)
    fix n assume "n \<in> set (nodes_of als)"
    from nodes_of_memD [OF this] obtain pre l' xs' post where
      "als = pre @ (l', xs') # post" "n \<in> set (l' # xs')" by blast
    then have "clist h l' xs'" "n \<in> set (l' # xs')"
      using wf_lists_clist [OF assms(1), of l' xs'] by simp_all
    then show "is_linked h n" by (rule member_linked)
  next
    fix n e1 e2
    assume "e1 \<in> set als" "e2 \<in> set als"
      "n \<in> set (fst e1 # snd e1) \<and> n \<in> set (fst e2 # snd e2)"
    then show "e1 = e2" using nodes_of_unique [OF d, of e1 e2 n] by blast
  qed
  show "\<forall>(l', xs') \<in> set als. is_solitary h l' \<longleftrightarrow> xs' = []"
    using wf_lists_clist [OF assms(1)] clist_solitary by blast
  show "\<forall>a \<in> dom h. \<exists>h0. list_init h a = Some h0 \<and> is_solitary h0 a \<and> clist h0 a []"
    using list_init_solitary by blast
  from assms(2) obtain pre post where dec: "als = pre @ (l, xs) # post"
    by (auto dest: split_list)
  from assms(3) obtain A B where xs: "xs = A @ node # B" by (auto dest: split_list)
  let ?p = "last (l # A)" and ?s = "hd (B @ [l])"
  let ?als' = "pre @ (l, A @ B) # post"
  have d': "distinct (nodes_of (pre @ (l, A @ [node] @ B) # post))" using d dec xs by simp
  from step_remove [OF assms(1) [unfolded dec xs]] obtain h' where
    h': "list_remove h node = Some (h', ?s)" "wf_lists h' ?als'"
        "get_prev h node = Some ?p" "get_next h node = Some ?s"
        "get_next h' = (get_next h)(?p \<mapsto> ?s)" "get_prev h' = (get_prev h)(?s \<mapsto> ?p)"
    by blast
  have rem: "abs_remove [node] als = ?als'"
    using abs_remove_decomp [OF d'] dec xs by simp
  have "?p \<in> set (l # A)" by (rule last_in_set) simp
  then have pn: "?p \<noteq> node" using d' by auto
  have "?s \<in> set (B @ [l])" by (rule hd_in_set) simp
  then have sn: "?s \<noteq> node" using d' by auto
  have same: "h' node = h node"
    using pn sn by (intro node_eqI) (simp_all add: h'(5,6))
  have notin: "node \<notin> set (nodes_of ?als')" using d' by auto
  have noref: "\<forall>n \<in> set (nodes_of ?als').
                 get_next h' n \<noteq> Some node \<and> get_prev h' n \<noteq> Some node"
  proof
    fix n assume "n \<in> set (nodes_of ?als')"
    from nodes_of_memD [OF this] obtain pre1 l1 xs1 post1 where
      d1: "?als' = pre1 @ (l1, xs1) # post1" and n1: "n \<in> set (l1 # xs1)" by blast
    have "(l1, xs1) \<in> set ?als'" by (subst d1) simp
    then have c1: "clist h' l1 xs1" and sub: "set (l1 # xs1) \<subseteq> set (nodes_of ?als')"
      using wf_lists_clist [OF h'(2)] nodes_of_mem by blast+
    from clist_node(2,3) [OF c1 n1] obtain m q where
      "get_next h' n = Some m" "m \<in> set (l1 # xs1)"
      "get_prev h' n = Some q" "q \<in> set (l1 # xs1)" by blast
    with sub notin show "get_next h' n \<noteq> Some node \<and> get_prev h' n \<noteq> Some node" by auto
  qed
  have gn: "get_next h' node = Some ?s" using pn h'(4) by (simp add: h'(5))
  have gp: "get_prev h' ?s = Some ?p" by (simp add: h'(6))
  have nl: "\<not> is_linked h' node"
    using gn gp pn by (cases "h' node") (auto simp: is_linked_def get_next_def)
  have ns: "\<not> is_solitary h' node"
    using gn sn by (auto simp: is_solitary_def get_next_def)
  have "get_next h' ?p = Some ?s" by (simp add: h'(5))
  with h' rem same notin noref nl ns gp
  show "\<exists>h' p s. list_remove h node = Some (h', s)
               \<and> get_prev h node = Some p \<and> get_next h node = Some s
               \<and> wf_lists h' (abs_remove [node] als)
               \<and> get_next h' p = Some s \<and> get_prev h' s = Some p
               \<and> node \<notin> set (nodes_of (abs_remove [node] als))
               \<and> (\<forall>n \<in> set (nodes_of (abs_remove [node] als)).
                     get_next h' n \<noteq> Some node \<and> get_prev h' n \<noteq> Some node)
               \<and> h' node = h node \<and> \<not> is_linked h' node \<and> \<not> is_solitary h' node"
    by (intro exI [of _ h'] exI [of _ ?p] exI [of _ ?s]) simp
qed

lemma hw_wf: "wf_lists hw [(1, [2, 3])]"
  using hw_clist by (simp add: wf_lists_single)

theorem linked_nodes_and_removal_witness:
  "wf_lists hw [(1, [2, 3])] \<and> (1, [2, 3]) \<in> set [(1 :: addr, [2, 3 :: addr])]
   \<and> (2 :: addr) \<in> set [2, 3]
   \<and> is_linked hw 1 \<and> is_linked hw 2 \<and> is_linked hw 3
   \<and> (\<exists>h' p s. list_remove hw 2 = Some (h', s) \<and> wf_lists h' [(1, [3])]
          \<and> get_next h' p = Some s \<and> get_prev h' s = Some p
          \<and> get_next h' 1 \<noteq> Some 2 \<and> get_prev h' 3 \<noteq> Some 2
          \<and> h' 2 = hw 2 \<and> \<not> is_linked h' 2 \<and> \<not> is_solitary h' 2)"
proof -
  have m: "(1, [2, 3]) \<in> set [(1 :: addr, [2, 3 :: addr])]" "(2 :: addr) \<in> set [2, 3]"
    by simp_all
  have r: "abs_remove [2] [(1 :: addr, [2, 3 :: addr])] = [(1, [3])]"
    by (simp add: abs_remove_def)
  note T = linked_nodes_and_removal [OF hw_wf m, unfolded r]
  have 1: "is_linked hw 1 \<and> is_linked hw 2 \<and> is_linked hw 3"
    using T [THEN conjunct1] by simp
  from T [THEN conjunct2, THEN conjunct2, THEN conjunct2] obtain h' p s where
    H: "list_remove hw 2 = Some (h', s)
        \<and> get_prev hw 2 = Some p \<and> get_next hw 2 = Some s
        \<and> wf_lists h' [(1, [3])]
        \<and> get_next h' p = Some s \<and> get_prev h' s = Some p
        \<and> 2 \<notin> set (nodes_of [(1, [3])])
        \<and> (\<forall>n \<in> set (nodes_of [(1, [3])]).
              get_next h' n \<noteq> Some 2 \<and> get_prev h' n \<noteq> Some 2)
        \<and> h' 2 = hw 2 \<and> \<not> is_linked h' 2 \<and> \<not> is_solitary h' 2"
    by (elim exE) (rule that, assumption)
  then have "list_remove hw 2 = Some (h', s) \<and> wf_lists h' [(1, [3])]
          \<and> get_next h' p = Some s \<and> get_prev h' s = Some p
          \<and> get_next h' 1 \<noteq> Some 2 \<and> get_prev h' 3 \<noteq> Some 2
          \<and> h' 2 = hw 2 \<and> \<not> is_linked h' 2 \<and> \<not> is_solitary h' 2"
    by simp
  then have "\<exists>h' p s. list_remove hw 2 = Some (h', s) \<and> wf_lists h' [(1, [3])]
          \<and> get_next h' p = Some s \<and> get_prev h' s = Some p
          \<and> get_next h' 1 \<noteq> Some 2 \<and> get_prev h' 3 \<noteq> Some 2
          \<and> h' 2 = hw 2 \<and> \<not> is_linked h' 2 \<and> \<not> is_solitary h' 2"
    by (intro exI [of _ h'] exI [of _ p] exI [of _ s])
  with 1 hw_wf m show ?thesis by blast
qed


section \<open>Moving a list header\<close>

lemma list_init_eq:
  assumes "h a = Some nd"
  shows "list_init h a = Some (h(a \<mapsto> \<lparr>prev = a, next = a\<rparr>))"
proof -
  obtain p n where "nd = \<lparr>prev = p, next = n\<rparr>" by (cases nd) simp
  with assms show ?thesis by (simp add: list_init_def set_prev_def set_next_def)
qed

lemma list_moved_effect:
  assumes "get_next h l = Some n" "get_prev h l = Some p" "n \<noteq> l" "n \<in> dom h" "p \<in> dom h"
  shows "\<exists>h'. list_moved h l = Some h' \<and> get_prev h' = (get_prev h)(n \<mapsto> l)
           \<and> get_next h' = (get_next h)(p \<mapsto> l) \<and> dom h' = dom h"
proof -
  from set_prev_effect [OF assms(4), of l] obtain h1 where
    h1: "set_prev h n l = Some h1" "get_prev h1 = (get_prev h)(n \<mapsto> l)"
        "get_next h1 = get_next h" "dom h1 = dom h" by blast
  have p1: "get_prev h1 l = Some p" using assms(2,3) by (simp add: h1(2))
  from assms(5) h1(4) have "p \<in> dom h1" by simp
  from set_next_effect [OF this, of l] obtain h2 where
    h2: "set_next h1 p l = Some h2" "get_next h2 = (get_next h1)(p \<mapsto> l)"
        "get_prev h2 = get_prev h1" "dom h2 = dom h1" by blast
  have "list_moved h l = Some h2"
    by (simp add: list_moved_def assms(1) h1(1) p1 h2(1))
  with h1 h2 show ?thesis by simp
qed

text \<open>
  Claim C8. Let \<open>src\<close> head a well-formed circular list and let \<open>dst\<close> be a node of the
  store that is not one of the elements (it may be \<open>src\<close> itself). Then
  \<^verbatim>\<open>list_move\<close> succeeds, and afterwards \<open>dst\<close> heads a well-formed circular list of
  the same elements in the same order: the first element's \<^verbatim>\<open>prev\<close> and the last
  element's \<^verbatim>\<open>next\<close> reference \<open>dst\<close>, and no other node than \<open>dst\<close>, the first and
  the last element is written. If \<open>src\<close> is empty, \<open>dst\<close> becomes a self-referencing
  empty list.
\<close>

theorem list_move_relocates:
  assumes "clist h src xs" and "dst \<in> dom h" and "dst \<notin> set xs"
  shows "\<exists>h'. list_move h dst src = Some h' \<and> clist h' dst xs
           \<and> (xs = [] \<longrightarrow> is_solitary h' dst)
           \<and> (xs \<noteq> [] \<longrightarrow> get_next h' dst = Some (hd xs) \<and> get_prev h' (hd xs) = Some dst
                 \<and> get_prev h' dst = Some (last xs) \<and> get_next h' (last xs) = Some dst)
           \<and> (\<forall>m. m \<noteq> dst \<and> (xs \<noteq> [] \<longrightarrow> m \<noteq> hd xs \<and> m \<noteq> last xs) \<longrightarrow> h' m = h m)"
proof (cases "xs = []")
  case True
  from assms(2) obtain nd where nd: "h dst = Some nd" by auto
  let ?h' = "h(dst \<mapsto> \<lparr>prev = dst, next = dst\<rparr>)"
  have "list_is_empty h src = Some True"
    using assms(1) True by (simp add: clist_empty_is_empty)
  then have "list_move h dst src = Some ?h'"
    using list_init_eq [of h dst nd, OF nd] by (simp add: list_move_def)
  moreover have "clist ?h' dst []" "is_solitary ?h' dst"
    by (simp_all add: clist_def is_solitary_def get_next_def get_prev_def)
  ultimately show ?thesis using True by simp
next
  case False
  then obtain n xs' where xs: "xs = n # xs'" by (cases xs) auto
  let ?p = "last xs"
  from assms(1) have d: "distinct (src # xs)" and pa: "path h src (xs @ [src])"
    by (simp_all add: clist_def)
  have nx: "get_next h src = Some n" using clist_next_head [OF assms(1)] xs by simp
  have pv: "get_prev h src = Some ?p" using clist_prev_head [OF assms(1)] False by simp
  then obtain s where s: "h src = Some s" "next s = n" "prev s = ?p"
    using nx by (auto simp: get_next_def get_prev_def)
  have e: "list_is_empty h src = Some False"
    using nx d xs by (auto simp: list_is_empty_def)
  from assms(2) obtain nd where nd: "h dst = Some nd" by auto
  let ?h1 = "h(dst \<mapsto> s)"
  have cp: "copy_node h dst src = Some ?h1" by (simp add: copy_node_def s(1) nd)
  have g1: "get_next ?h1 = (get_next h)(dst \<mapsto> n)" "get_prev ?h1 = (get_prev h)(dst \<mapsto> ?p)"
    by (rule ext, simp add: get_next_def s)  (rule ext, simp add: get_prev_def s)
  have pin: "?p \<in> set xs" using False by simp
  have nin: "n \<in> set xs" by (simp add: xs)
  have nd': "n \<noteq> dst" "?p \<noteq> dst" using assms(3) pin nin by auto
  have dom1: "dom ?h1 = dom h" using assms(2) by auto
  have "set xs \<subseteq> dom h" using clist_dom [OF assms(1)] by auto
  then have "n \<in> dom ?h1" "?p \<in> dom ?h1" using pin nin dom1 by auto
  from list_moved_effect [of ?h1 dst n ?p, OF _ _ nd'(1) this] obtain h' where
    h': "list_moved ?h1 dst = Some h'"
        "get_prev h' = (get_prev h)(dst \<mapsto> ?p, n \<mapsto> dst)"
        "get_next h' = (get_next h)(dst \<mapsto> n, ?p \<mapsto> dst)"
    by (auto simp: g1)
  have mv: "list_move h dst src = Some h'"
    by (simp add: list_move_def e cp h'(1))
  have q: "get_next h' dst = Some n" "get_prev h' n = Some dst"
    "get_prev h' dst = Some ?p" "get_next h' ?p = Some dst"
    using nd' by (simp_all add: h'(2,3))
  from pa have p0: "path h n xs'" by (simp add: xs path_append)
  have "path h' n xs' = path h n xs'"
  proof (rule path_cong)
    fix m assume *: "m \<in> set (butlast (n # xs'))"
    then have "m \<in> set xs" unfolding xs by (rule in_set_butlastD)
    with assms(3) have "m \<noteq> dst" by auto
    moreover have "m \<noteq> ?p"
      using * last_notin_butlast [of xs] d False unfolding xs by auto
    ultimately show "get_next h' m = get_next h m" by (simp add: h'(3))
  next
    fix m assume "m \<in> set xs'"
    with d assms(3) xs have "m \<noteq> n" "m \<noteq> dst" by auto
    then show "get_prev h' m = get_prev h m" by (simp add: h'(2))
  qed
  with p0 have p1: "path h' n xs'" by simp
  have lastp: "last (n # xs') = ?p" by (simp add: xs)
  have "path h' n (xs' @ [dst])"
    unfolding path_append lastp using p1 q by simp
  then have "path h' dst (xs @ [dst])" using q by (simp add: xs)
  moreover have "distinct (dst # xs)" using d assms(3) by simp
  ultimately have c: "clist h' dst xs" by (simp add: clist_def)
  have f: "\<forall>m. m \<noteq> dst \<and> (xs \<noteq> [] \<longrightarrow> m \<noteq> hd xs \<and> m \<noteq> last xs) \<longrightarrow> h' m = h m"
  proof (intro allI impI)
    fix m assume "m \<noteq> dst \<and> (xs \<noteq> [] \<longrightarrow> m \<noteq> hd xs \<and> m \<noteq> last xs)"
    then have "m \<noteq> dst" "m \<noteq> n" "m \<noteq> ?p" using False xs by auto
    then show "h' m = h m" by (intro node_eqI) (simp_all add: h'(2,3))
  qed
  from mv c q f False xs show ?thesis by simp
qed

theorem list_move_relocates_witness:
  "clist hw 1 [2, 3] \<and> (5 :: addr) \<in> dom (hw(5 \<mapsto> \<lparr>prev = 0, next = 0\<rparr>))
   \<and> (5 :: addr) \<notin> set [2, 3]
   \<and> (\<exists>h'. list_move (hw(5 \<mapsto> \<lparr>prev = 0, next = 0\<rparr>)) 5 1 = Some h' \<and> clist h' 5 [2, 3]
          \<and> get_prev h' 2 = Some 5 \<and> get_next h' 3 = Some 5)
   \<and> clist h_empty 1 [] \<and> (1 :: addr) \<in> dom h_empty
   \<and> (\<exists>h'. list_move h_empty 1 1 = Some h' \<and> clist h' 1 [] \<and> is_solitary h' 1)"
proof -
  let ?h = "hw(5 \<mapsto> \<lparr>prev = 0, next = 0\<rparr>)"
  have c: "clist ?h 1 [2, 3]"
    by (simp add: clist_def hw_def get_next_def get_prev_def)
  have m: "(5 :: addr) \<in> dom ?h" "(5 :: addr) \<notin> set [2, 3]" by simp_all
  from list_move_relocates [OF c m] have
    1: "\<exists>h'. list_move ?h 5 1 = Some h' \<and> clist h' 5 [2, 3]
          \<and> get_prev h' 2 = Some 5 \<and> get_next h' 3 = Some 5" by auto
  have e: "(1 :: addr) \<in> dom h_empty" "(1 :: addr) \<notin> set []" by (simp_all add: h_empty_def)
  from list_move_relocates [OF h_empty_clist e] have
    2: "\<exists>h'. list_move h_empty 1 1 = Some h' \<and> clist h' 1 [] \<and> is_solitary h' 1" by auto
  from 1 2 hw_clist h_empty_clist m e show ?thesis by simp
qed


section \<open>Replacing an element\<close>

lemma list_replace_effect:
  assumes "get_next h pos = Some s" "get_prev h pos = Some p" "s \<noteq> pos"
    and "e \<in> dom h" "s \<in> dom h" "p \<in> dom h"
  shows "\<exists>h'. list_replace h e pos = Some h'
           \<and> get_next h' = (get_next h)(e \<mapsto> s, p \<mapsto> e)
           \<and> get_prev h' = (get_prev h)(s \<mapsto> e, e \<mapsto> p) \<and> dom h' = dom h"
proof -
  from set_next_effect [OF assms(4), of s] obtain h1 where
    h1: "set_next h e s = Some h1" "get_next h1 = (get_next h)(e \<mapsto> s)"
        "get_prev h1 = get_prev h" "dom h1 = dom h" by blast
  have en: "get_next h1 e = Some s" by (simp add: h1(2))
  from assms(5) h1(4) have "s \<in> dom h1" by simp
  from set_prev_effect [OF this, of e] obtain h2 where
    h2: "set_prev h1 s e = Some h2" "get_prev h2 = (get_prev h1)(s \<mapsto> e)"
        "get_next h2 = get_next h1" "dom h2 = dom h1" by blast
  have pp: "get_prev h2 pos = Some p" using assms(2,3) by (simp add: h2(2) h1(3))
  from assms(4) h1(4) h2(4) have "e \<in> dom h2" by simp
  from set_prev_effect [OF this, of p] obtain h3 where
    h3: "set_prev h2 e p = Some h3" "get_prev h3 = (get_prev h2)(e \<mapsto> p)"
        "get_next h3 = get_next h2" "dom h3 = dom h2" by blast
  have ep: "get_prev h3 e = Some p" by (simp add: h3(2))
  from assms(6) h1(4) h2(4) h3(4) have "p \<in> dom h3" by simp
  from set_next_effect [OF this, of e] obtain h4 where
    h4: "set_next h3 p e = Some h4" "get_next h4 = (get_next h3)(p \<mapsto> e)"
        "get_prev h4 = get_prev h3" "dom h4 = dom h3" by blast
  have "list_replace h e pos = Some h4"
    by (simp add: list_replace_def assms(1) h1(1) en h2(1) pp h3(1) ep h4(1))
  with h1 h2 h3 h4 show ?thesis by simp
qed

text \<open>
  Claim C10. Let \<open>position\<close> be an element of a well-formed circular list and
  \<open>element\<close> a node of the store that is not in the list. Then \<^verbatim>\<open>list_replace\<close>
  succeeds; afterwards the header heads the well-formed circular list in which
  \<open>element\<close> takes the place of \<open>position\<close> and every other element is where it was.
  \<open>position\<close> is not a node of that list, no node of the list references it, and its
  own record is unchanged: its pointers still hold its former neighbours.
\<close>

theorem list_replace_member:
  assumes "clist h l (A @ position # B)" and "element \<in> dom h"
    and "element \<notin> set (l # A @ position # B)"
  shows "\<exists>h'. list_replace h element position = Some h'
           \<and> clist h' l (A @ element # B)
           \<and> position \<notin> set (l # A @ element # B)
           \<and> (\<forall>n \<in> set (l # A @ element # B).
                 get_next h' n \<noteq> Some position \<and> get_prev h' n \<noteq> Some position)
           \<and> h' position = h position
           \<and> get_prev h' position = Some (last (l # A))
           \<and> get_next h' position = Some (hd (B @ [l]))"
proof -
  let ?p = "last (l # A)" and ?s = "hd (B @ [l])"
  have c: "clist h l (A @ [position] @ B)" using assms(1) by simp
  then have d: "distinct (l # A @ position # B)" by (simp add: clist_def)
  obtain C where sC: "B @ [l] = ?s # C" by (cases B) auto
  from c have pa: "path h l (A @ [position] @ ?s # C)"
    by (simp add: clist_def sC [symmetric])
  have pp: "get_prev h position = Some ?p" using path_mid(1) [OF pa] by simp
  have pn: "get_next h position = Some ?s" using path_mid_next [OF pa] by simp
  have pin: "?p \<in> set (l # A)" by (rule last_in_set) simp
  have sin: "?s \<in> set (B @ [l])" by (rule hd_in_set) simp
  have ne: "?s \<noteq> position" "?p \<noteq> position" "element \<noteq> ?p" "element \<noteq> ?s"
    "element \<noteq> position"
    using d pin sin assms(3) by auto
  have dm: "?s \<in> dom h" "?p \<in> dom h" using clist_dom [OF assms(1)] pin sin by auto
  from list_replace_effect [OF pn pp ne(1) assms(2) dm] obtain h' where
    h': "list_replace h element position = Some h'"
        "get_next h' = (get_next h)(element \<mapsto> ?s, ?p \<mapsto> element)"
        "get_prev h' = (get_prev h)(?s \<mapsto> element, element \<mapsto> ?p)" "dom h' = dom h"
    by blast
  from clist_unlink_run [OF c] obtain hm where
    hm: "clist hm l (A @ B)" "dom hm = dom h"
        "get_next hm = (get_next h)(?p \<mapsto> ?s)" "get_prev hm = (get_prev h)(?s \<mapsto> ?p)"
    by auto
  have pos: "(A @ B) @ [l] = A @ ?s # C" using sC by simp
  have n: "get_next h' = (get_next hm)(last [element] \<mapsto> ?s, ?p \<mapsto> element)"
    using ne by (auto simp: h'(2) hm(3) fun_eq_iff)
  have v: "get_prev h' = (get_prev hm)(element \<mapsto> ?p, ?s \<mapsto> last [element])"
    using ne by (auto simp: h'(3) hm(4) fun_eq_iff)
  have "path h' l (A @ (element # []) @ ?s # C)"
  proof (rule clist_link [OF hm(1) pos _ _ _ n v])
    show "path hm element []" by simp
    show "distinct [element]" by simp
    show "set [element] \<inter> set (l # A @ B) = {}" using assms(3) by auto
  qed
  then have "path h' l ((A @ element # B) @ [l])" using sC by simp
  moreover have d': "distinct (l # A @ element # B)" using d assms(3) by auto
  ultimately have c': "clist h' l (A @ element # B)" by (simp only: clist_def)
  have notin: "position \<notin> set (l # A @ element # B)" using d ne by auto
  have noref: "\<forall>n \<in> set (l # A @ element # B).
                 get_next h' n \<noteq> Some position \<and> get_prev h' n \<noteq> Some position"
  proof
    fix n assume n: "n \<in> set (l # A @ element # B)"
    from clist_node(2,3) [OF c' n] obtain m q where
      "get_next h' n = Some m" "m \<in> set (l # A @ element # B)"
      "get_prev h' n = Some q" "q \<in> set (l # A @ element # B)" by blast
    with notin show "get_next h' n \<noteq> Some position \<and> get_prev h' n \<noteq> Some position"
      by auto
  qed
  have same: "h' position = h position"
    using ne by (intro node_eqI) (simp_all add: h'(2,3))
  then have "get_prev h' position = Some ?p" "get_next h' position = Some ?s"
    using pp pn by (simp_all add: get_prev_def get_next_def)
  with h'(1) c' notin noref same show ?thesis by blast
qed

theorem list_replace_member_witness:
  "clist (hw(5 \<mapsto> \<lparr>prev = 0, next = 0\<rparr>)) 1 ([2] @ 3 # [])
   \<and> (5 :: addr) \<in> dom (hw(5 \<mapsto> \<lparr>prev = 0, next = 0\<rparr>))
   \<and> (5 :: addr) \<notin> set (1 # [2] @ 3 # [])
   \<and> (\<exists>h'. list_replace (hw(5 \<mapsto> \<lparr>prev = 0, next = 0\<rparr>)) 5 3 = Some h'
          \<and> clist h' 1 [2, 5] \<and> h' 3 = Some \<lparr>prev = 2, next = 1\<rparr>
          \<and> get_next h' 2 \<noteq> Some 3 \<and> get_prev h' 1 \<noteq> Some 3)"
proof -
  let ?h = "hw(5 \<mapsto> \<lparr>prev = 0, next = 0\<rparr>)"
  have c: "clist ?h 1 ([2] @ 3 # [])"
    by (simp add: clist_def hw_def get_next_def get_prev_def)
  have m: "(5 :: addr) \<in> dom ?h" "(5 :: addr) \<notin> set (1 # [2] @ 3 # [])" by simp_all
  have h3: "?h 3 = Some \<lparr>prev = 2, next = 1\<rparr>" by (simp add: hw_def)
  from list_replace_member [OF c m] obtain h' where
    "list_replace ?h 5 3 = Some h'" "clist h' 1 ([2] @ 5 # [])"
    "\<forall>n \<in> set (1 # [2] @ 5 # []). get_next h' n \<noteq> Some 3 \<and> get_prev h' n \<noteq> Some 3"
    "h' 3 = ?h 3" by blast
  then have "list_replace ?h 5 3 = Some h' \<and> clist h' 1 [2, 5]
      \<and> h' 3 = Some \<lparr>prev = 2, next = 1\<rparr> \<and> get_next h' 2 \<noteq> Some 3 \<and> get_prev h' 1 \<noteq> Some 3"
    using h3 by simp
  then have "\<exists>h'. list_replace ?h 5 3 = Some h' \<and> clist h' 1 [2, 5]
      \<and> h' 3 = Some \<lparr>prev = 2, next = 1\<rparr> \<and> get_next h' 2 \<noteq> Some 3 \<and> get_prev h' 1 \<noteq> Some 3"
    by (intro exI [of _ h'])
  with c m show ?thesis by blast
qed

end
